theory Spec2Isabelle
  imports Main "HOL-Library.Multiset"
begin

section \<open>The file-upload server\<close>

text \<open>
  A shallow embedding of the Express server of the repository (\<^verbatim>\<open>server/index.js\<close>,
  staged as \<^verbatim>\<open>src/unnamed/part_000\<close>): the metadata store (\<^verbatim>\<open>loadMeta\<close>,
  \<^verbatim>\<open>saveMeta\<close>, \<^verbatim>\<open>getFileInfoById\<close>), the multer storage configuration and the
  upload, listing, lookup, download and delete routes.

  The server's own code is translated line by line. What it calls from Node, Express,
  multer and the JavaScript runtime is modelled by small executable definitions, each
  marked as library behaviour:
  \<^item> strings are byte strings: a JavaScript string is represented by its UTF-8 encoding,
    which is what reaches the metadata file and the response headers;
  \<^item> the disk is a map from paths to nodes (a regular file with its content, or a
    directory); reading, writing and unlinking fail exactly where the node kind makes
    the POSIX call fail;
  \<^item> JSON numbers are exact decimals; JavaScript keeps the nearest double, which is the
    same number for the integers below \<open>2\<^sup>5\<^sup>3\<close> (the only numeric field of a record
    is a byte count);
  \<^item> the clock, the UUID generator, the mime table and the reading of a timestamp
    string as a date are inputs of the handlers.
\<close>

subsection \<open>Characters\<close>

definition lower_letters :: string where
  "lower_letters = ''abcdefghijklmnopqrstuvwxyz''"

definition upper_letters :: string where
  "upper_letters = ''ABCDEFGHIJKLMNOPQRSTUVWXYZ''"

definition digit_chars :: string where
  "digit_chars = ''0123456789''"

definition is_letter :: "char \<Rightarrow> bool" where
  "is_letter c = (c \<in> set lower_letters \<or> c \<in> set upper_letters)"

definition is_digit :: "char \<Rightarrow> bool" where
  "is_digit c = (c \<in> set digit_chars)"

subsection \<open>Paths (library behaviour: Node's posix \<^verbatim>\<open>path\<close> module)\<close>

text \<open>
  \<^verbatim>\<open>path.extname\<close> and \<^verbatim>\<open>path.parse(p).name\<close> look at the last component of the
  path, trailing slashes dropped. The extension runs from the last dot of the component
  to its end; it is empty when the component has no dot, when its only dot is its first
  character, and when the component is \<^verbatim>\<open>..\<close>.
\<close>

definition last_component :: "string \<Rightarrow> string" where
  "last_component p =
     rev (takeWhile (\<lambda>c. c \<noteq> CHR ''/'') (dropWhile (\<lambda>c. c = CHR ''/'') (rev p)))"

definition component_ext :: "string \<Rightarrow> string" where
  "component_ext b =
     (let suffix = rev (takeWhile (\<lambda>c. c \<noteq> CHR ''.'') (rev b));
          stem = rev (drop 1 (dropWhile (\<lambda>c. c \<noteq> CHR ''.'') (rev b)))
      in if CHR ''.'' \<notin> set b then []
         else if stem = [] then []
         else if stem = ''.'' \<and> suffix = [] then []
         else CHR ''.'' # suffix)"

definition path_extname :: "string \<Rightarrow> string" where
  "path_extname p = component_ext (last_component p)"

definition path_parse_name :: "string \<Rightarrow> string" where
  "path_parse_name p =
     (let b = last_component p in take (length b - length (component_ext b)) b)"

text \<open>
  \<^verbatim>\<open>path.join(dir, name)\<close>. Node also normalises the result; the model joins the
  two segments as they are, so two paths are the same file when they are the same string.
\<close>

definition path_join :: "string \<Rightarrow> string \<Rightarrow> string" where
  "path_join dir name = dir @ ''/'' @ name"

subsection \<open>Configuration\<close>

text \<open>
  \<^verbatim>\<open>UPLOAD_DIR\<close> and \<^verbatim>\<open>MAX_FILE_SIZE\<close> are read from the environment at startup
  (lines 16-17); \<^verbatim>\<open>META_PATH\<close> is derived from the upload directory (line 19).
\<close>

record config =
  UPLOAD_DIR :: string
  MAX_FILE_SIZE :: nat

definition META_PATH :: "config \<Rightarrow> string" where
  "META_PATH cfg = path_join (UPLOAD_DIR cfg) ''metadata.json''"

subsection \<open>The multer storage: stored file names (lines 38-48)\<close>

text \<open>The character class \<^verbatim>\<open>[.a-zA-Z0-9]\<close> of the regular expression on line 45.\<close>

definition safe_ext_char :: "char \<Rightarrow> bool" where
  "safe_ext_char c = (c = CHR ''.'' \<or> is_letter c \<or> is_digit c)"

text \<open>\<^verbatim>\<open>ext.replace(/[^.a-zA-Z0-9]/g, '')\<close>: every character outside the class is removed.\<close>

definition safe_ext :: "string \<Rightarrow> string" where
  "safe_ext ext = filter safe_ext_char ext"

text \<open>
  \<^verbatim>\<open>storage.filename\<close>: the first argument is the value \<^verbatim>\<open>uuidv4()\<close> returned for
  this file.
\<close>

definition storage_filename :: "string \<Rightarrow> string \<Rightarrow> string" where
  "storage_filename uuid originalname =
     (let id = uuid;
          ext = path_extname originalname;
          safeExt = safe_ext ext
      in id @ safeExt)"

subsection \<open>Errors and the disk (library behaviour: Node's \<^verbatim>\<open>fs\<close> module)\<close>

text \<open>
  A JavaScript exception: a system error of \<^verbatim>\<open>fs\<close> with its \<^verbatim>\<open>code\<close>, a
  \<^verbatim>\<open>MulterError\<close> with its \<^verbatim>\<open>code\<close>, a \<^verbatim>\<open>TypeError\<close> or a \<^verbatim>\<open>SyntaxError\<close>.
\<close>

datatype js_error = SystemError string | MulterError string | TypeError | SyntaxError

fun err_code :: "js_error \<Rightarrow> string option" where
  "err_code (SystemError c) = Some c"
| "err_code (MulterError c) = Some c"
| "err_code TypeError = None"
| "err_code SyntaxError = None"

datatype node = File string | Directory

type_synonym disk = "string \<Rightarrow> node option"

definition existsSync :: "disk \<Rightarrow> string \<Rightarrow> bool" where
  "existsSync fs p = (fs p \<noteq> None)"

definition readFileSync :: "disk \<Rightarrow> string \<Rightarrow> js_error + string" where
  "readFileSync fs p =
     (case fs p of
        None \<Rightarrow> Inl (SystemError ''ENOENT'')
      | Some Directory \<Rightarrow> Inl (SystemError ''EISDIR'')
      | Some (File content) \<Rightarrow> Inr content)"

text \<open>The upload directory exists (line 22 creates it), so writing a new file succeeds.\<close>

definition writeFileSync :: "disk \<Rightarrow> string \<Rightarrow> string \<Rightarrow> js_error + disk" where
  "writeFileSync fs p content =
     (case fs p of
        Some Directory \<Rightarrow> Inl (SystemError ''EISDIR'')
      | _ \<Rightarrow> Inr (fs(p \<mapsto> File content)))"

definition unlink :: "disk \<Rightarrow> string \<Rightarrow> js_error + disk" where
  "unlink fs p =
     (case fs p of
        None \<Rightarrow> Inl (SystemError ''ENOENT'')
      | Some Directory \<Rightarrow> Inl (SystemError ''EISDIR'')
      | Some (File content) \<Rightarrow> Inr (fs(p := None)))"

subsection \<open>JSON values and \<^verbatim>\<open>JSON.stringify\<close> (library behaviour)\<close>

text \<open>
  A number is an integer, \<open>JNum\<close>, or a decimal that is not an integer, \<open>JDec\<close>:
  \<open>JDec neg n d k\<close> is the number \<open>(10 n + d) / 10\<^bsup>k+1\<^esup>\<close>, negated when \<open>neg\<close>
  holds, where the last decimal place \<open>d\<close> is not zero. Every decimal number has exactly
  one representation.
\<close>

datatype nzdigit = D1 | D2 | D3 | D4 | D5 | D6 | D7 | D8 | D9

fun digit_value :: "nzdigit \<Rightarrow> nat" where
  "digit_value D1 = 1" | "digit_value D2 = 2" | "digit_value D3 = 3"
| "digit_value D4 = 4" | "digit_value D5 = 5" | "digit_value D6 = 6"
| "digit_value D7 = 7" | "digit_value D8 = 8" | "digit_value D9 = 9"

datatype json =
    JNull
  | JBool bool
  | JNum int
  | JDec bool nat nzdigit nat
  | JStr string
  | JArr "json list"
  | JObj "(string \<times> json) list"

definition hex_chars :: string where
  "hex_chars = ''0123456789abcdef''"

fun digits_of :: "nat \<Rightarrow> string" where
  "digits_of n =
     (if n < 10 then [digit_chars ! n] else digits_of (n div 10) @ [digit_chars ! (n mod 10)])"

declare digits_of.simps [simp del]

definition number_text :: "int \<Rightarrow> string" where
  "number_text i = (if i < 0 then CHR ''-'' # digits_of (nat (- i)) else digits_of (nat i))"

text \<open>
  The text of a decimal with \<open>k\<close> places and the digits \<open>m\<close>: the integer part, the
  point and the \<open>k\<close> last digits of \<open>m\<close>. (JavaScript writes a number below \<open>10\<^sup>-\<^sup>6\<close> with
  an exponent; the server writes no number that is not an integer.)
\<close>

fun pad_digits :: "nat \<Rightarrow> nat \<Rightarrow> string" where
  "pad_digits 0 n = []"
| "pad_digits (Suc k) n = pad_digits k (n div 10) @ [digit_chars ! (n mod 10)]"

definition decimal_text :: "bool \<Rightarrow> nat \<Rightarrow> nat \<Rightarrow> string" where
  "decimal_text neg m k =
     (if neg then ''-'' else []) @ digits_of (m div 10 ^ k) @ CHR ''.'' # pad_digits k m"

text \<open>
  \<^verbatim>\<open>QuoteJSONString\<close>: the double quote (0x22), the backslash (0x5C) and the control
  characters below 0x20 are escaped; every other byte is copied.
\<close>

definition quote_char :: "char \<Rightarrow> string" where
  "quote_char c =
     (if c = CHR 0x22 then [CHR 0x5C, CHR 0x22]
      else if c = CHR 0x5C then [CHR 0x5C, CHR 0x5C]
      else if c = CHR 0x08 then [CHR 0x5C, CHR ''b'']
      else if c = CHR 0x0C then [CHR 0x5C, CHR ''f'']
      else if c = CHR 0x0A then [CHR 0x5C, CHR ''n'']
      else if c = CHR 0x0D then [CHR 0x5C, CHR ''r'']
      else if c = CHR 0x09 then [CHR 0x5C, CHR ''t'']
      else if (of_char c :: nat) < 0x20 then
        [CHR 0x5C, CHR ''u'', CHR ''0'', CHR ''0'',
         hex_chars ! (of_char c div 16), hex_chars ! (of_char c mod 16)]
      else [c])"

definition QuoteJSONString :: "string \<Rightarrow> string" where
  "QuoteJSONString s = CHR 0x22 # concat (map quote_char s) @ [CHR 0x22]"

fun join :: "string \<Rightarrow> string list \<Rightarrow> string" where
  "join sep [] = []"
| "join sep [x] = x"
| "join sep (x # y # ys) = x @ sep @ join sep (y # ys)"

text \<open>
  \<^verbatim>\<open>SerializeJSONProperty\<close> with the indentation unit \<open>gap\<close> and the current
  indentation \<open>ind\<close>. With an empty gap the text is compact; otherwise every element
  and member stands on a line of its own, indented one unit more than its parent.
\<close>

fun stringify :: "string \<Rightarrow> string \<Rightarrow> json \<Rightarrow> string" where
  "stringify gap ind JNull = ''null''"
| "stringify gap ind (JBool b) = (if b then ''true'' else ''false'')"
| "stringify gap ind (JNum i) = number_text i"
| "stringify gap ind (JDec neg n d k) = decimal_text neg (10 * n + digit_value d) (Suc k)"
| "stringify gap ind (JStr s) = QuoteJSONString s"
| "stringify gap ind (JArr xs) =
     (if xs = [] then ''[]''
      else if gap = [] then ''['' @ join '','' (map (stringify gap (ind @ gap)) xs) @ '']''
      else ''['' @ CHR 0x0A # (ind @ gap)
           @ join ('','' @ CHR 0x0A # (ind @ gap)) (map (stringify gap (ind @ gap)) xs)
           @ CHR 0x0A # ind @ '']'')"
| "stringify gap ind (JObj kvs) =
     (if kvs = [] then ''{}''
      else if gap = [] then
        ''{'' @ join '','' (map (\<lambda>(k, v). QuoteJSONString k @ '':'' @ stringify gap (ind @ gap) v) kvs)
        @ ''}''
      else ''{'' @ CHR 0x0A # (ind @ gap)
           @ join ('','' @ CHR 0x0A # (ind @ gap))
               (map (\<lambda>(k, v). QuoteJSONString k @ '': '' @ stringify gap (ind @ gap) v) kvs)
           @ CHR 0x0A # ind @ ''}'')"

text \<open>\<^verbatim>\<open>JSON.stringify(value, null, gap)\<close>; \<^verbatim>\<open>JSON.stringify(value)\<close> is the empty gap.\<close>

definition JSON_stringify :: "string \<Rightarrow> json \<Rightarrow> string" where
  "JSON_stringify gap v = stringify gap [] v"

subsection \<open>\<^verbatim>\<open>JSON.parse\<close> (library behaviour)\<close>

definition is_ws :: "char \<Rightarrow> bool" where
  "is_ws c = (c = CHR 0x20 \<or> c = CHR 0x09 \<or> c = CHR 0x0A \<or> c = CHR 0x0D)"

definition skip_ws :: "string \<Rightarrow> string" where
  "skip_ws s = dropWhile is_ws s"

definition hex_val :: "char \<Rightarrow> nat option" where
  "hex_val c =
     (if is_digit c then Some (of_char c - 48)
      else if c \<in> set ''abcdef'' then Some (of_char c - 87)
      else if c \<in> set ''ABCDEF'' then Some (of_char c - 55)
      else None)"

definition hex4 :: "char \<Rightarrow> char \<Rightarrow> char \<Rightarrow> char \<Rightarrow> nat option" where
  "hex4 a b c d =
     (case (hex_val a, hex_val b, hex_val c, hex_val d) of
        (Some h3, Some h2, Some h1, Some h0) \<Rightarrow> Some (((h3 * 16 + h2) * 16 + h1) * 16 + h0)
      | _ \<Rightarrow> None)"

text \<open>The UTF-8 encoding of the code unit that a \<^verbatim>\<open>\uXXXX\<close> escape names.\<close>

definition utf8 :: "nat \<Rightarrow> string" where
  "utf8 n =
     (if n < 0x80 then [char_of n]
      else if n < 0x800 then [char_of (0xC0 + n div 64), char_of (0x80 + n mod 64)]
      else [char_of (0xE0 + n div 4096), char_of (0x80 + n div 64 mod 64),
            char_of (0x80 + n mod 64)])"

definition unescape :: "char \<Rightarrow> char option" where
  "unescape e =
     (if e = CHR 0x22 then Some (CHR 0x22)
      else if e = CHR 0x5C then Some (CHR 0x5C)
      else if e = CHR ''/'' then Some (CHR ''/'')
      else if e = CHR ''b'' then Some (CHR 0x08)
      else if e = CHR ''f'' then Some (CHR 0x0C)
      else if e = CHR ''n'' then Some (CHR 0x0A)
      else if e = CHR ''r'' then Some (CHR 0x0D)
      else if e = CHR ''t'' then Some (CHR 0x09)
      else None)"

text \<open>
  The characters of a string, after its opening quote, up to the closing quote. A raw
  control character is a syntax error. A surrogate pair written as two escapes (which
  \<^verbatim>\<open>JSON.stringify\<close> never writes) is read one code unit at a time.
\<close>

fun parse_chars :: "string \<Rightarrow> (string \<times> string) option" where
  "parse_chars [] = None"
| "parse_chars (c # r) =
     (if c = CHR 0x22 then Some ([], r)
      else if c = CHR 0x5C then
        (case r of
           [] \<Rightarrow> None
         | e # r' \<Rightarrow>
            if e = CHR ''u'' then
              (case r' of
                 h3 # h2 # h1 # h0 # r'' \<Rightarrow>
                   (case hex4 h3 h2 h1 h0 of
                      None \<Rightarrow> None
                    | Some n \<Rightarrow> map_option (apfst ((@) (utf8 n))) (parse_chars r''))
               | _ \<Rightarrow> None)
            else
              (case unescape e of
                 None \<Rightarrow> None
               | Some d \<Rightarrow> map_option (apfst ((#) d)) (parse_chars r')))
      else if (of_char c :: nat) < 0x20 then None
      else map_option (apfst ((#) c)) (parse_chars r))"

definition digits_val :: "string \<Rightarrow> nat" where
  "digits_val ds = foldl (\<lambda>a c. 10 * a + (of_char c - 48)) 0 ds"

text \<open>
  A number literal: an optional minus sign, decimal digits with no leading zero, an
  optional fraction (a point and at least one digit) and an optional exponent (\<^verbatim>\<open>e\<close> or
  \<^verbatim>\<open>E\<close>, an optional sign and at least one digit).
\<close>

definition fraction :: "string \<Rightarrow> (string \<times> string) option" where
  "fraction s =
     (case s of
        [] \<Rightarrow> Some ([], s)
      | c # r \<Rightarrow>
          if c \<noteq> CHR ''.'' then Some ([], s)
          else if takeWhile is_digit r = [] then None
          else Some (takeWhile is_digit r, dropWhile is_digit r))"

definition exponent :: "string \<Rightarrow> (int \<times> string) option" where
  "exponent s =
     (case s of
        [] \<Rightarrow> Some (0, s)
      | c # r \<Rightarrow>
          if c \<noteq> CHR ''e'' \<and> c \<noteq> CHR ''E'' then Some (0, s)
          else
            (let neg = (take 1 r = ''-'');
                 r' = (if neg \<or> take 1 r = ''+'' then drop 1 r else r);
                 ds = takeWhile is_digit r'
             in if ds = [] then None
                else Some (if neg then - int (digits_val ds) else int (digits_val ds),
                           dropWhile is_digit r')))"

text \<open>
  The number with the digits \<open>m\<close>, of which the last \<open>k\<close> are decimal places: trailing
  zeros of the fraction are dropped, and a number with no fraction left is an integer
  (\<^verbatim>\<open>3.0\<close> is 3, and \<^verbatim>\<open>-0\<close> is 0 once written).
\<close>

definition nzdigit_of :: "nat \<Rightarrow> nzdigit" where
  "nzdigit_of n =
     (if n = 1 then D1 else if n = 2 then D2 else if n = 3 then D3 else if n = 4 then D4
      else if n = 5 then D5 else if n = 6 then D6 else if n = 7 then D7
      else if n = 8 then D8 else D9)"

fun decimal :: "bool \<Rightarrow> nat \<Rightarrow> nat \<Rightarrow> json" where
  "decimal neg m 0 = JNum (if neg then - int m else int m)"
| "decimal neg m (Suc k) =
     (if m mod 10 = 0 then decimal neg (m div 10) k
      else JDec neg (m div 10) (nzdigit_of (m mod 10)) k)"

text \<open>The number \<open>m \<times> 10\<^sup>e\<close>, negated when \<open>neg\<close> holds.\<close>

definition number_value :: "bool \<Rightarrow> nat \<Rightarrow> int \<Rightarrow> json" where
  "number_value neg m e =
     (if 0 \<le> e then JNum ((if neg then - int m else int m) * 10 ^ nat e)
      else decimal neg m (nat (- e)))"

definition parse_number :: "string \<Rightarrow> (json \<times> string) option" where
  "parse_number s =
     (let neg = (take 1 s = ''-'');
          r = (if neg then drop 1 s else s);
          ds = takeWhile is_digit r
      in if ds = [] then None
         else if 1 < length ds \<and> take 1 ds = ''0'' then None
         else
           (case fraction (dropWhile is_digit r) of
              None \<Rightarrow> None
            | Some (fs, r1) \<Rightarrow>
                (case exponent r1 of
                   None \<Rightarrow> None
                 | Some (e, r2) \<Rightarrow>
                     Some (number_value neg (digits_val (ds @ fs)) (e - int (length fs)), r2))))"

definition literal :: "string \<Rightarrow> string \<Rightarrow> string option" where
  "literal w s = (if take (length w) s = w then Some (drop (length w) s) else None)"

text \<open>
  The recursive descent over values, array elements and object members. The first
  argument bounds the number of nested calls; \<open>JSON_parse\<close> starts it above the length
  of the text, and every call but the first comes after a consumed character.
\<close>

fun parse_value :: "nat \<Rightarrow> string \<Rightarrow> (json \<times> string) option"
  and parse_elements :: "nat \<Rightarrow> string \<Rightarrow> (json list \<times> string) option"
  and parse_members :: "nat \<Rightarrow> string \<Rightarrow> ((string \<times> json) list \<times> string) option"
where
  "parse_value 0 s = None"
| "parse_value (Suc n) s =
     (case skip_ws s of
        [] \<Rightarrow> None
      | c # r \<Rightarrow>
          if c = CHR ''['' then
            (case skip_ws r of
               [] \<Rightarrow> None
             | d # r' \<Rightarrow>
                 if d = CHR '']'' then Some (JArr [], r')
                 else map_option (apfst JArr) (parse_elements n r))
          else if c = CHR ''{'' then
            (case skip_ws r of
               [] \<Rightarrow> None
             | d # r' \<Rightarrow>
                 if d = CHR ''}'' then Some (JObj [], r')
                 else map_option (apfst JObj) (parse_members n r))
          else if c = CHR 0x22 then map_option (apfst JStr) (parse_chars r)
          else if c = CHR ''n'' then map_option (Pair JNull) (literal ''null'' (c # r))
          else if c = CHR ''t'' then map_option (Pair (JBool True)) (literal ''true'' (c # r))
          else if c = CHR ''f'' then map_option (Pair (JBool False)) (literal ''false'' (c # r))
          else parse_number (c # r))"
| "parse_elements 0 s = None"
| "parse_elements (Suc n) s =
     (case parse_value n s of
        None \<Rightarrow> None
      | Some (v, r) \<Rightarrow>
          (case skip_ws r of
             [] \<Rightarrow> None
           | c # r' \<Rightarrow>
               if c = CHR '','' then map_option (apfst ((#) v)) (parse_elements n r')
               else if c = CHR '']'' then Some ([v], r')
               else None))"
| "parse_members 0 s = None"
| "parse_members (Suc n) s =
     (case skip_ws s of
        [] \<Rightarrow> None
      | q # r \<Rightarrow>
          if q \<noteq> CHR 0x22 then None
          else
            (case parse_chars r of
               None \<Rightarrow> None
             | Some (k, r1) \<Rightarrow>
                 (case skip_ws r1 of
                    [] \<Rightarrow> None
                  | c # r2 \<Rightarrow>
                      if c \<noteq> CHR '':'' then None
                      else
                        (case parse_value n r2 of
                           None \<Rightarrow> None
                         | Some (v, r3) \<Rightarrow>
                             (case skip_ws r3 of
                                [] \<Rightarrow> None
                              | d # r4 \<Rightarrow>
                                  if d = CHR '','' then
                                    map_option (apfst ((#) (k, v))) (parse_members n r4)
                                  else if d = CHR ''}'' then Some ([(k, v)], r4)
                                  else None)))))"

text \<open>\<^verbatim>\<open>JSON.parse(text)\<close>: \<open>None\<close> is the \<^verbatim>\<open>SyntaxError\<close>.\<close>

definition JSON_parse :: "string \<Rightarrow> json option" where
  "JSON_parse s =
     (case parse_value (Suc (length s)) s of
        None \<Rightarrow> None
      | Some (v, r) \<Rightarrow> if skip_ws r = [] then Some v else None)"

subsection \<open>The metadata store (lines 55-72)\<close>

text \<open>
  \<^verbatim>\<open>loadMeta\<close>: the \<^verbatim>\<open>try\<close> block reads and parses the document; the
  \<^verbatim>\<open>catch\<close> block writes \<^verbatim>\<open>JSON.stringify([])\<close> and returns the empty array. An
  error of that write is not caught.
\<close>

definition loadMeta :: "config \<Rightarrow> disk \<Rightarrow> js_error + (json \<times> disk)" where
  "loadMeta cfg fs =
     (case (case readFileSync fs (META_PATH cfg) of
              Inl e \<Rightarrow> Inl e
            | Inr raw \<Rightarrow>
                (case JSON_parse raw of None \<Rightarrow> Inl SyntaxError | Some v \<Rightarrow> Inr v)) of
        Inr v \<Rightarrow> Inr (v, fs)
      | Inl e \<Rightarrow>
          (case writeFileSync fs (META_PATH cfg) (JSON_stringify [] (JArr [])) of
             Inl e' \<Rightarrow> Inl e'
           | Inr fs' \<Rightarrow> Inr (JArr [], fs')))"

text \<open>\<^verbatim>\<open>saveMeta(list)\<close> writes \<^verbatim>\<open>JSON.stringify(list, null, 2)\<close>.\<close>

definition saveMeta :: "config \<Rightarrow> json \<Rightarrow> disk \<Rightarrow> js_error + disk" where
  "saveMeta cfg list fs = writeFileSync fs (META_PATH cfg) (JSON_stringify ''  '' list)"

text \<open>The startup code (lines 22-25) creates the document when it does not exist.\<close>

definition startup :: "config \<Rightarrow> disk \<Rightarrow> js_error + disk" where
  "startup cfg fs =
     (if \<not> existsSync fs (META_PATH cfg)
      then writeFileSync fs (META_PATH cfg) (JSON_stringify [] (JArr []))
      else Inr fs)"

subsection \<open>File records\<close>

text \<open>
  The object that the upload route builds on lines 89-97, with its seven properties in
  the order of the source. \<open>id'\<close> is the property \<^verbatim>\<open>id\<close> and \<open>size'\<close> the property
  \<^verbatim>\<open>size\<close>.
\<close>

record FileRecord =
  id' :: string
  originalName :: string
  storedName :: string
  extension :: string
  size' :: int
  mime :: string
  uploadedAt :: string

definition record_json :: "FileRecord \<Rightarrow> json" where
  "record_json r =
     JObj [(''id'', JStr (id' r)),
           (''originalName'', JStr (originalName r)),
           (''storedName'', JStr (storedName r)),
           (''extension'', JStr (extension r)),
           (''size'', JNum (size' r)),
           (''mime'', JStr (mime r)),
           (''uploadedAt'', JStr (uploadedAt r))]"

text \<open>
  The routes that read properties of the stored objects (\<^verbatim>\<open>f.id\<close>,
  \<^verbatim>\<open>file.storedName\<close>, \<^verbatim>\<open>a.uploadedAt\<close>, ...) are modelled on documents that hold an
  array of such objects, which is what the server writes. On any other value the model
  stops with the \<^verbatim>\<open>TypeError\<close> that JavaScript raises when the document is not an array
  or an element is \<^verbatim>\<open>null\<close>.
\<close>

definition json_record :: "json \<Rightarrow> FileRecord option" where
  "json_record j =
     (case j of
        JObj kvs \<Rightarrow>
          if map fst kvs = [''id'', ''originalName'', ''storedName'', ''extension'', ''size'',
                            ''mime'', ''uploadedAt'']
          then (case map snd kvs of
                  [JStr a, JStr b, JStr c, JStr d, JNum n, JStr e, JStr f] \<Rightarrow>
                    Some \<lparr>id' = a, originalName = b, storedName = c, extension = d, size' = n,
                          mime = e, uploadedAt = f\<rparr>
                | _ \<Rightarrow> None)
          else None
      | _ \<Rightarrow> None)"

definition records_of :: "json \<Rightarrow> FileRecord list option" where
  "records_of meta = (case meta of JArr xs \<Rightarrow> those (map json_record xs) | _ \<Rightarrow> None)"

definition the_records :: "json \<Rightarrow> js_error + FileRecord list" where
  "the_records meta = (case records_of meta of None \<Rightarrow> Inl TypeError | Some rs \<Rightarrow> Inr rs)"

definition records_json :: "FileRecord list \<Rightarrow> json" where
  "records_json rs = JArr (map record_json rs)"

text \<open>The sequence of records that the metadata document on the disk holds.\<close>

definition store :: "config \<Rightarrow> disk \<Rightarrow> FileRecord list option" where
  "store cfg fs =
     (case readFileSync fs (META_PATH cfg) of
        Inl e \<Rightarrow> None
      | Inr raw \<Rightarrow> (case JSON_parse raw of None \<Rightarrow> None | Some v \<Rightarrow> records_of v))"

text \<open>\<^verbatim>\<open>getFileInfoById\<close> (lines 70-72): \<^verbatim>\<open>list.find(...) || null\<close>.\<close>

definition getFileInfoById :: "string \<Rightarrow> FileRecord list \<Rightarrow> FileRecord option" where
  "getFileInfoById id0 list = find (\<lambda>f. id' f = id0) list"

subsection \<open>Responses (library behaviour: Express)\<close>

datatype body =
    JsonFiles "FileRecord list"
  | JsonFile FileRecord
  | JsonError string
  | JsonOk
  | FileStream string
  | ErrorPage

record response =
  status :: nat
  headers :: "(string \<times> string) list"
  body :: body

text \<open>
  A route either sends a response or lets an exception escape: the routes are
  \<^verbatim>\<open>async\<close> functions, so an exception outside a \<^verbatim>\<open>try\<close> block rejects the promise
  and no response is written by the route.
\<close>

datatype outcome = Responds response | Unhandled js_error

definition json_response :: "nat \<Rightarrow> body \<Rightarrow> outcome" where
  "json_response code b = Responds \<lparr>status = code, headers = [], body = b\<rparr>"

text \<open>
  Express' final handler answers an error passed to \<^verbatim>\<open>next(err)\<close> when no error
  middleware is registered (the server registers none): the status is
  \<^verbatim>\<open>err.status\<close> when that is a 4xx or 5xx code, and 500 otherwise. Neither system
  errors nor multer's errors carry a status.
\<close>

fun err_status :: "js_error \<Rightarrow> nat option" where
  "err_status e = None"

definition finalhandler :: "js_error \<Rightarrow> outcome" where
  "finalhandler err =
     json_response
       (case err_status err of
          Some s \<Rightarrow> if 400 \<le> s \<and> s < 600 then s else 500
        | None \<Rightarrow> 500)
       ErrorPage"

subsection \<open>Listing and lookup (lines 112-124)\<close>

text \<open>
  \<^verbatim>\<open>Array.prototype.sort\<close> with a comparison function (library behaviour): the sort is
  stable, and \<open>a\<close> is placed before \<open>b\<close> unless \<open>cmp a b\<close> is positive.
\<close>

fun insert_sorted :: "('a \<Rightarrow> 'a \<Rightarrow> int) \<Rightarrow> 'a \<Rightarrow> 'a list \<Rightarrow> 'a list" where
  "insert_sorted cmp x [] = [x]"
| "insert_sorted cmp x (y # ys) =
     (if cmp x y \<le> 0 then x # y # ys else y # insert_sorted cmp x ys)"

definition Array_sort :: "('a \<Rightarrow> 'a \<Rightarrow> int) \<Rightarrow> 'a list \<Rightarrow> 'a list" where
  "Array_sort cmp xs = foldr (insert_sorted cmp) xs []"

text \<open>
  \<^verbatim>\<open>GET /api/files\<close>. The argument \<open>Date\<close> gives the time value of
  \<^verbatim>\<open>new Date(s)\<close> for a timestamp string \<open>s\<close>.
\<close>

definition get_files :: "(string \<Rightarrow> int) \<Rightarrow> config \<Rightarrow> disk \<Rightarrow> outcome \<times> disk" where
  "get_files Date cfg fs =
     (case loadMeta cfg fs of
        Inl e \<Rightarrow> (Unhandled e, fs)
      | Inr (meta, fs1) \<Rightarrow>
          (case the_records meta of
             Inl e \<Rightarrow> (Unhandled e, fs1)
           | Inr rs \<Rightarrow>
               (json_response 200
                  (JsonFiles (Array_sort (\<lambda>a b. Date (uploadedAt b) - Date (uploadedAt a)) rs)),
                fs1)))"

text \<open>\<^verbatim>\<open>GET /api/files/:id\<close>; \<open>req_id\<close> is \<^verbatim>\<open>req.params.id\<close>.\<close>

definition get_file :: "config \<Rightarrow> string \<Rightarrow> disk \<Rightarrow> outcome \<times> disk" where
  "get_file cfg req_id fs =
     (case loadMeta cfg fs of
        Inl e \<Rightarrow> (Unhandled e, fs)
      | Inr (meta, fs1) \<Rightarrow>
          (case the_records meta of
             Inl e \<Rightarrow> (Unhandled e, fs1)
           | Inr rs \<Rightarrow>
               (case getFileInfoById req_id rs of
                  None \<Rightarrow> (json_response 404 (JsonError ''Not found''), fs1)
                | Some file \<Rightarrow> (json_response 200 (JsonFile file), fs1))))"

subsection \<open>Download (lines 126-137)\<close>

text \<open>
  \<^verbatim>\<open>encodeURIComponent\<close> (library behaviour): the unreserved characters are kept,
  every other byte of the UTF-8 text is written as a percent sign and two upper-case
  hexadecimal digits.
\<close>

definition uri_unreserved :: "char \<Rightarrow> bool" where
  "uri_unreserved c = (is_letter c \<or> is_digit c \<or> c \<in> set ''-_.!~*()'' \<or> c = CHR 0x27)"

definition upper_hex_chars :: string where
  "upper_hex_chars = ''0123456789ABCDEF''"

definition percent_encode :: "char \<Rightarrow> string" where
  "percent_encode c =
     [CHR ''%'', upper_hex_chars ! (of_char c div 16), upper_hex_chars ! (of_char c mod 16)]"

definition encodeURIComponent :: "string \<Rightarrow> string" where
  "encodeURIComponent s = concat (map (\<lambda>c. if uri_unreserved c then [c] else percent_encode c) s)"

definition content_disposition :: "string \<Rightarrow> string" where
  "content_disposition name =
     ''attachment; filename='' @ [CHR 0x22] @ encodeURIComponent name @ [CHR 0x22]"

text \<open>
  \<^verbatim>\<open>GET /api/files/:id/download\<close>; \<open>abs'\<close> is the source's \<^verbatim>\<open>abs\<close>. Piping the
  read stream of a regular file sends its bytes with the default status 200; the stream
  of a directory fails with an error that nothing handles.
\<close>

definition download :: "config \<Rightarrow> string \<Rightarrow> disk \<Rightarrow> outcome \<times> disk" where
  "download cfg req_id fs =
     (case loadMeta cfg fs of
        Inl e \<Rightarrow> (Unhandled e, fs)
      | Inr (meta, fs1) \<Rightarrow>
          (case the_records meta of
             Inl e \<Rightarrow> (Unhandled e, fs1)
           | Inr rs \<Rightarrow>
               (case getFileInfoById req_id rs of
                  None \<Rightarrow> (json_response 404 (JsonError ''Not found''), fs1)
                | Some file \<Rightarrow>
                    (let abs' = path_join (UPLOAD_DIR cfg) (storedName file)
                     in if \<not> existsSync fs1 abs'
                        then (json_response 404 (JsonError ''Missing file on disk''), fs1)
                        else
                          (case readFileSync fs1 abs' of
                             Inl e \<Rightarrow> (Unhandled e, fs1)
                           | Inr bytes \<Rightarrow>
                               (Responds
                                  \<lparr>status = 200,
                                   headers =
                                     [(''Content-Type'', mime file),
                                      (''Content-Disposition'',
                                       content_disposition (originalName file))],
                                   body = FileStream bytes\<rparr>,
                                fs1))))))"

subsection \<open>Delete (lines 139-158)\<close>

text \<open>\<^verbatim>\<open>Array.prototype.findIndex\<close>: the first index whose element passes, or -1.\<close>

fun findIndex :: "('a \<Rightarrow> bool) \<Rightarrow> 'a list \<Rightarrow> int" where
  "findIndex P [] = - 1"
| "findIndex P (x # xs) =
     (if P x then 0 else (let i = findIndex P xs in if i = - 1 then - 1 else i + 1))"

text \<open>\<^verbatim>\<open>meta.splice(idx, 1)\<close> for an index of the array.\<close>

definition splice1 :: "nat \<Rightarrow> 'a list \<Rightarrow> 'a list" where
  "splice1 idx xs = take idx xs @ drop (Suc idx) xs"

text \<open>
  \<^verbatim>\<open>DELETE /api/files/:id\<close>. The \<^verbatim>\<open>try\<close> block unlinks the file when it exists,
  then removes the record and rewrites the document; the \<^verbatim>\<open>catch\<close> block answers 500.
\<close>

definition delete_file :: "config \<Rightarrow> string \<Rightarrow> disk \<Rightarrow> outcome \<times> disk" where
  "delete_file cfg req_id fs =
     (case loadMeta cfg fs of
        Inl e \<Rightarrow> (Unhandled e, fs)
      | Inr (meta, fs1) \<Rightarrow>
          (case the_records meta of
             Inl e \<Rightarrow> (Unhandled e, fs1)
           | Inr rs \<Rightarrow>
               (let idx = findIndex (\<lambda>f. id' f = req_id) rs
                in if idx = - 1 then (json_response 404 (JsonError ''Not found''), fs1)
                   else
                     (let file = rs ! nat idx;
                          abs' = path_join (UPLOAD_DIR cfg) (storedName file)
                      in case (if existsSync fs1 abs' then unlink fs1 abs' else Inr fs1) of
                           Inl e \<Rightarrow> (json_response 500 (JsonError ''Failed to delete''), fs1)
                         | Inr fs2 \<Rightarrow>
                             (case saveMeta cfg (records_json (splice1 (nat idx) rs)) fs2 of
                                Inl e \<Rightarrow>
                                  (json_response 500 (JsonError ''Failed to delete''), fs2)
                              | Inr fs3 \<Rightarrow> (json_response 200 JsonOk, fs3))))))"

subsection \<open>The multer middleware (library behaviour; configured on lines 38-53)\<close>

text \<open>
  A file part of a multipart body: the form field, the file name the client declares,
  the declared content type and the bytes.
\<close>

record part =
  part_field :: string
  part_filename :: string
  part_type :: string
  part_data :: string

text \<open>
  The file object that multer hands to the route; \<open>filesize\<close> is its property
  \<^verbatim>\<open>size\<close>.
\<close>

record multer_file =
  fieldname :: string
  originalname :: string
  mimetype :: string
  filename :: string
  path :: string
  filesize :: nat

text \<open>On an error multer unlinks the files it has stored for the request.\<close>

fun remove_uploaded :: "multer_file list \<Rightarrow> disk \<Rightarrow> disk" where
  "remove_uploaded [] fs = fs"
| "remove_uploaded (f # fs') fs =
     remove_uploaded fs' (case unlink fs (path f) of Inl e \<Rightarrow> fs | Inr fs1 \<Rightarrow> fs1)"

text \<open>
  \<^verbatim>\<open>upload.array('files', 10)\<close> with the disk storage of lines 38-48 and the limit
  \<^verbatim>\<open>fileSize: MAX_FILE_SIZE\<close>. The parts are handled in the order of the body:
  \<^item> a part with no file name is skipped;
  \<^item> a part of another field, or one more part than \<open>left\<close> allows, is refused with
    \<^verbatim>\<open>LIMIT_UNEXPECTED_FILE\<close>;
  \<^item> otherwise \<^verbatim>\<open>storage.filename\<close> names the file with the next value of
    \<^verbatim>\<open>uuidv4()\<close> (\<open>uuidv4 k\<close> is the value of the \<open>k\<close>-th call) and the bytes are
    written to the upload directory; a part with more bytes than the limit is cut at
    the limit and refused with \<^verbatim>\<open>LIMIT_FILE_SIZE\<close>. The limit is read as multer documents
    it, the largest size a file may have: a part of exactly \<^verbatim>\<open>MAX_FILE_SIZE\<close> bytes is
    stored.
  After an error no further part is handled and the stored files are removed.
\<close>

fun multer_parts ::
  "config \<Rightarrow> (nat \<Rightarrow> string) \<Rightarrow> nat \<Rightarrow> nat \<Rightarrow> part list \<Rightarrow> multer_file list \<Rightarrow> disk
     \<Rightarrow> (js_error + multer_file list) \<times> disk" where
  "multer_parts cfg uuidv4 k left [] uploaded fs = (Inr uploaded, fs)"
| "multer_parts cfg uuidv4 k left (p # ps) uploaded fs =
     (if part_filename p = [] then multer_parts cfg uuidv4 k left ps uploaded fs
      else if part_field p \<noteq> ''files'' \<or> left = 0
      then (Inl (MulterError ''LIMIT_UNEXPECTED_FILE''), remove_uploaded uploaded fs)
      else
        (let name = storage_filename (uuidv4 k) (part_filename p);
             file = \<lparr>fieldname = part_field p, originalname = part_filename p,
                     mimetype = part_type p, filename = name,
                     path = path_join (UPLOAD_DIR cfg) name,
                     filesize = min (length (part_data p)) (MAX_FILE_SIZE cfg)\<rparr>
         in case writeFileSync fs (path file) (take (MAX_FILE_SIZE cfg) (part_data p)) of
              Inl e \<Rightarrow> (Inl e, remove_uploaded uploaded fs)
            | Inr fs1 \<Rightarrow>
                if MAX_FILE_SIZE cfg < length (part_data p)
                then (Inl (MulterError ''LIMIT_FILE_SIZE''),
                      remove_uploaded (uploaded @ [file]) fs1)
                else multer_parts cfg uuidv4 (Suc k) (left - 1) ps (uploaded @ [file]) fs1))"

text \<open>
  The middleware: a request that is not multipart (\<open>None\<close>) passes with
  \<^verbatim>\<open>req.files\<close> undefined; otherwise \<^verbatim>\<open>req.files\<close> is the list of stored files, or
  the error is passed to \<^verbatim>\<open>next\<close>.
\<close>

definition multer_array ::
  "config \<Rightarrow> (nat \<Rightarrow> string) \<Rightarrow> part list option \<Rightarrow> disk
     \<Rightarrow> (js_error + multer_file list option) \<times> disk" where
  "multer_array cfg uuidv4 multipart fs =
     (case multipart of
        None \<Rightarrow> (Inr None, fs)
      | Some parts \<Rightarrow>
          (case multer_parts cfg uuidv4 0 10 parts [] fs of
             (Inl e, fs1) \<Rightarrow> (Inl e, fs1)
           | (Inr files, fs1) \<Rightarrow> (Inr (Some files), fs1)))"

subsection \<open>Upload (lines 79-110)\<close>

text \<open>
  The record of one stored file (lines 87-97). \<open>lookup\<close> is \<^verbatim>\<open>mime.lookup\<close>, which
  gives a content type or \<^verbatim>\<open>false\<close>.
\<close>

definition new_record :: "(string \<Rightarrow> string option) \<Rightarrow> string \<Rightarrow> multer_file \<Rightarrow> FileRecord" where
  "new_record lookup now f =
     (let id = path_parse_name (filename f);
          ext = path_extname (filename f)
      in \<lparr>id' = id,
          originalName = originalname f,
          storedName = filename f,
          extension = ext,
          size' = int (filesize f),
          mime = (if mimetype f \<noteq> [] then mimetype f
                  else (case lookup (originalname f) of
                          Some m \<Rightarrow> m
                        | None \<Rightarrow> ''application/octet-stream'')),
          uploadedAt = now\<rparr>)"

text \<open>\<^verbatim>\<open>meta.push(record)\<close>: a \<^verbatim>\<open>TypeError\<close> when the document is not an array.\<close>

fun array_push :: "json \<Rightarrow> json \<Rightarrow> js_error + json" where
  "array_push (JArr xs) x = Inr (JArr (xs @ [x]))"
| "array_push j x = Inl TypeError"

text \<open>The loop of lines 86-100 over \<^verbatim>\<open>files\<close>, with \<^verbatim>\<open>meta\<close> and \<^verbatim>\<open>saved\<close>.\<close>

fun upload_loop ::
  "(string \<Rightarrow> string option) \<Rightarrow> string \<Rightarrow> multer_file list \<Rightarrow> json \<Rightarrow> FileRecord list
     \<Rightarrow> js_error + (json \<times> FileRecord list)" where
  "upload_loop lookup now [] meta saved = Inr (meta, saved)"
| "upload_loop lookup now (f # files) meta saved =
     (let record = new_record lookup now f
      in case array_push meta (record_json record) of
           Inl e \<Rightarrow> Inl e
         | Inr meta' \<Rightarrow> upload_loop lookup now files meta' (saved @ [record]))"

text \<open>
  The route function: the \<^verbatim>\<open>try\<close> block (lines 81-102) and the \<^verbatim>\<open>catch\<close> block
  (lines 103-109). \<open>now\<close> is the value of \<^verbatim>\<open>new Date().toISOString()\<close>.
\<close>

definition upload_try ::
  "config \<Rightarrow> (string \<Rightarrow> string option) \<Rightarrow> string \<Rightarrow> multer_file list option \<Rightarrow> disk
     \<Rightarrow> (js_error + FileRecord list) \<times> disk" where
  "upload_try cfg lookup now req_files fs =
     (let files = (case req_files of None \<Rightarrow> [] | Some fs' \<Rightarrow> fs')
      in case loadMeta cfg fs of
           Inl e \<Rightarrow> (Inl e, fs)
         | Inr (meta, fs1) \<Rightarrow>
             (case upload_loop lookup now files meta [] of
                Inl e \<Rightarrow> (Inl e, fs1)
              | Inr (meta', saved) \<Rightarrow>
                  (case saveMeta cfg meta' fs1 of
                     Inl e \<Rightarrow> (Inl e, fs1)
                   | Inr fs2 \<Rightarrow> (Inr saved, fs2))))"

definition upload_handler ::
  "config \<Rightarrow> (string \<Rightarrow> string option) \<Rightarrow> string \<Rightarrow> multer_file list option \<Rightarrow> disk
     \<Rightarrow> outcome \<times> disk" where
  "upload_handler cfg lookup now req_files fs =
     (case upload_try cfg lookup now req_files fs of
        (Inr saved, fs') \<Rightarrow> (json_response 201 (JsonFiles saved), fs')
      | (Inl err, fs') \<Rightarrow>
          if err_code err = Some ''LIMIT_FILE_SIZE''
          then (json_response 400
                  (JsonError (''File too large. Max '' @ digits_of (MAX_FILE_SIZE cfg)
                              @ '' bytes.'')), fs')
          else (json_response 500 (JsonError ''Upload failed.''), fs'))"

text \<open>
  \<^verbatim>\<open>app.post('/api/upload', upload.array('files', 10), handler)\<close> (library
  behaviour: Express' routing). The route function runs when the middleware calls
  \<^verbatim>\<open>next()\<close>; when the middleware calls \<^verbatim>\<open>next(err)\<close>, Express skips the route
  function and the error reaches the final handler.
\<close>

definition post_upload ::
  "config \<Rightarrow> (string \<Rightarrow> string option) \<Rightarrow> (nat \<Rightarrow> string) \<Rightarrow> string \<Rightarrow> part list option \<Rightarrow> disk
     \<Rightarrow> outcome \<times> disk" where
  "post_upload cfg lookup uuidv4 now multipart fs =
     (case multer_array cfg uuidv4 multipart fs of
        (Inl err, fs1) \<Rightarrow> (finalhandler err, fs1)
      | (Inr req_files, fs1) \<Rightarrow> upload_handler cfg lookup now req_files fs1)"

subsection \<open>Notions used in the proofs\<close>

text \<open>A string of JSON white space.\<close>

definition all_ws :: "string \<Rightarrow> bool" where "all_ws w = (\<forall>c\<in>set w. is_ws c)"

text \<open>
  A bound on the nesting budget that \<open>parse_value\<close> needs for the text of a value; it
  is at most the length of that text.
\<close>

fun jsize :: "json \<Rightarrow> nat" where
  "jsize (JArr xs) = Suc (sum_list (map jsize xs) + length xs)"
| "jsize (JObj kvs) = Suc (sum_list (map (\<lambda>(k, v). jsize v) kvs) + length kvs)"
| "jsize v = 1"

text \<open>
  What may follow the text of a value: not a digit, a point or an exponent mark, which
  would extend a number.
\<close>

definition ok_rest :: "string \<Rightarrow> bool" where
  "ok_rest rest = (rest = [] \<or> (\<not> is_digit (hd rest) \<and> hd rest \<notin> set ''.eE''))"

text \<open>The characters that start the text of a value.\<close>

definition value_start :: "char \<Rightarrow> bool" where
  "value_start c = (c \<in> set ''ntf-0123456789[{'' \<or> c = CHR 0x22)"

text \<open>
  A version 4 UUID as \<^verbatim>\<open>uuidv4()\<close> prints it has 36 characters, each a lower-case
  hexadecimal digit or a dash.
\<close>

definition uuid_shaped :: "string \<Rightarrow> bool" where
  "uuid_shaped u = (length u = 36 \<and> (\<forall>c\<in>set u. c = CHR ''-'' \<or> c \<in> set hex_chars))"

text \<open>
  The file object multer builds for a part that it accepts, with the identifier \<open>u\<close>, and
  the files of a list of accepted parts, the first with the \<open>k\<close>-th identifier.
\<close>

definition stored_file :: "config \<Rightarrow> string \<Rightarrow> part \<Rightarrow> multer_file" where
  "stored_file cfg u p =
     \<lparr>fieldname = part_field p, originalname = part_filename p, mimetype = part_type p,
      filename = storage_filename u (part_filename p),
      path = path_join (UPLOAD_DIR cfg) (storage_filename u (part_filename p)),
      filesize = length (part_data p)\<rparr>"

fun stored_files :: "config \<Rightarrow> (nat \<Rightarrow> string) \<Rightarrow> nat \<Rightarrow> part list \<Rightarrow> multer_file list" where
  "stored_files cfg uuidv4 k [] = []"
| "stored_files cfg uuidv4 k (p # ps) = stored_file cfg (uuidv4 k) p # stored_files cfg uuidv4 (Suc k) ps"

text \<open>A file part that multer accepts.\<close>

definition accepted :: "config \<Rightarrow> part \<Rightarrow> bool" where
  "accepted cfg p =
     (part_field p = ''files'' \<and> part_filename p \<noteq> [] \<and> length (part_data p) \<le> MAX_FILE_SIZE cfg)"

text \<open>
  Percent-decoding (RFC 3986, section 2.1): a percent sign and two hexadecimal digits
  stand for the byte with that value, every other character for itself. It is what a
  client applies to the file name of a \<^verbatim>\<open>Content-Disposition\<close> header.
\<close>

fun percent_decode :: "string \<Rightarrow> string option" where
  "percent_decode [] = Some []"
| "percent_decode (c # s) =
     (if c = CHR ''%'' then
        (case s of
           h # l # s' \<Rightarrow>
             (case (hex_val h, hex_val l) of
                (Some a, Some b) \<Rightarrow> map_option ((#) (char_of (16 * a + b))) (percent_decode s')
              | _ \<Rightarrow> None)
         | _ \<Rightarrow> None)
      else map_option ((#) c) (percent_decode s))"

text \<open>Fuel adequacy of the three parsing functions: a result obtained with fuel \<open>n\<close> consumes
  input, and every fuel of at least the number of characters consumed gives the same result.\<close>

definition fuel_ok_value :: "nat \<Rightarrow> bool" where
  "fuel_ok_value n = (\<forall>s v r. parse_value n s = Some (v, r) \<longrightarrow>
      length r < length s \<and> (\<forall>m. length s - length r \<le> m \<longrightarrow> parse_value m s = Some (v, r)))"

definition fuel_ok_elements :: "nat \<Rightarrow> bool" where
  "fuel_ok_elements n = (\<forall>s vs r. parse_elements n s = Some (vs, r) \<longrightarrow>
      length r < length s \<and> (\<forall>m. length s - length r \<le> m \<longrightarrow> parse_elements m s = Some (vs, r)))"

definition fuel_ok_members :: "nat \<Rightarrow> bool" where
  "fuel_ok_members n = (\<forall>s kvs r. parse_members n s = Some (kvs, r) \<longrightarrow>
      length r < length s \<and> (\<forall>m. length s - length r \<le> m \<longrightarrow> parse_members m s = Some (kvs, r)))"


subsection \<open>Example data\<close>

definition example_cfg :: config where
  "example_cfg = \<lparr>UPLOAD_DIR = ''uploads'', MAX_FILE_SIZE = 4\<rparr>"

definition example_record :: "string \<Rightarrow> string \<Rightarrow> FileRecord" where
  "example_record i t =
     \<lparr>id' = i, originalName = ''notes.txt'', storedName = i @ ''.txt'', extension = ''.txt'',
      size' = 3, mime = ''text/plain'', uploadedAt = t\<rparr>"

definition example_disk :: disk where
  "example_disk =
     [''uploads/metadata.json'' \<mapsto>
        File (JSON_stringify ''  '' (records_json [example_record ''a'' ''t1''])),
      ''uploads/a.txt'' \<mapsto> File ''abc'']"

definition example_disk_dir :: disk where
  "example_disk_dir =
     [''uploads/metadata.json'' \<mapsto>
        File (JSON_stringify ''  '' (records_json [example_record ''a'' ''t1''])),
      ''uploads/a.txt'' \<mapsto> Directory]"

definition example_uuidv4 :: "nat \<Rightarrow> string" where
  "example_uuidv4 k = ''00000000-0000-4000-8000-00000000000'' @ [hex_chars ! (k mod 16)]"

definition example_parts :: "part list" where
  "example_parts =
     [\<lparr>part_field = ''files'', part_filename = ''my notes.t x$t'', part_type = ''text/plain'',
       part_data = ''abc''\<rparr>,
      \<lparr>part_field = ''files'', part_filename = ''archive.tar.gz'', part_type = [],
       part_data = ''wxyz''\<rparr>]"

definition example_big_part :: part where
  "example_big_part =
     \<lparr>part_field = ''files'', part_filename = ''big.bin'', part_type = ''application/octet-stream'',
      part_data = ''abcdefgh''\<rparr>"

definition example_Date :: "string \<Rightarrow> int" where
  "example_Date s = (if s = ''t1'' then 1 else if s = ''t2'' then 2 else if s = ''t3'' then 3 else 0)"

definition example_disk3 :: disk where
  "example_disk3 =
     [''uploads/metadata.json'' \<mapsto>
        File (JSON_stringify ''  ''
          (records_json [example_record ''b'' ''t2'', example_record ''c'' ''t3'',
                         example_record ''a'' ''t1'']))]"

text \<open>A record whose original name has a space, a double quote and a two-byte character.\<close>

definition example_record_enc :: FileRecord where
  "example_record_enc =
     \<lparr>id' = ''e'', originalName = ''my notes'' @ [CHR 0x22, CHR 0xC3, CHR 0xA9] @ ''.txt'',
      storedName = ''e.txt'', extension = ''.txt'', size' = 3, mime = ''text/plain'',
      uploadedAt = ''t1''\<rparr>"

definition example_disk_enc :: disk where
  "example_disk_enc =
     [''uploads/metadata.json'' \<mapsto> File (JSON_stringify ''  '' (records_json [example_record_enc])),
      ''uploads/e.txt'' \<mapsto> File ''abc'']"



section \<open>Properties\<close>

subsection \<open>JSON: parsing the text of a value gives the value back\<close>

lemma skip_ws_append: "all_ws w \<Longrightarrow> skip_ws (w @ s) = skip_ws s"
  by (induction w) (auto simp: all_ws_def skip_ws_def)

lemma skip_ws_Cons: "\<not> is_ws c \<Longrightarrow> skip_ws (c # s) = c # s"
  by (simp add: skip_ws_def)

lemma digit_nth: "k < 10 \<Longrightarrow> is_digit (digit_chars ! k) \<and> (of_char (digit_chars ! k) :: nat) = 48 + k"
proof -
  assume "k < 10"
  then have "k \<in> {0,1,2,3,4,5,6,7,8,9}" by auto
  then show ?thesis by (auto simp: is_digit_def digit_chars_def)
qed

lemma hex_nth: "k < 16 \<Longrightarrow> hex_val (hex_chars ! k) = Some k"
proof -
  assume "k < 16"
  then have "k \<in> {0,1,2,3,4,5,6,7,8,9,10,11,12,13,14,15}" by (simp, arith)
  then show ?thesis by (auto simp: hex_val_def hex_chars_def is_digit_def digit_chars_def)
qed

lemma digits_of_digits: "\<forall>c\<in>set (digits_of n). is_digit c"
  by (induction n rule: digits_of.induct) (subst digits_of.simps, auto simp: digit_nth)

lemma digits_of_nonempty: "digits_of n \<noteq> []"
  by (subst digits_of.simps) simp

lemma digits_val_append: "digits_val (ds @ [c]) = 10 * digits_val ds + (of_char c - 48)"
  by (simp add: digits_val_def)

lemma digits_val_digits_of: "digits_val (digits_of n) = n"
proof (induction n rule: digits_of.induct)
  case (1 n)
  show ?case
  proof (cases "n < 10")
    case True
    then show ?thesis by (subst digits_of.simps) (simp add: digits_val_def digit_nth)
  next
    case False
    then have "digits_val (digits_of (n div 10)) = n div 10" using 1 by simp
    with False show ?thesis
      by (subst digits_of.simps) (simp add: digits_val_append digit_nth)
  qed
qed

lemma digits_of_hd: "1 < length (digits_of n) \<Longrightarrow> take 1 (digits_of n) \<noteq> ''0''"
proof (induction n rule: digits_of.induct)
  case (1 n)
  show ?case
  proof (cases "n < 10")
    case True
    with 1(2) show ?thesis by (subst (asm) digits_of.simps) simp
  next
    case False
    note nf = False
    show ?thesis
    proof (cases "n div 10 < 10")
      case True
      have "n div 10 \<noteq> 0" using nf by auto
      then have "n div 10 \<in> {1,2,3,4,5,6,7,8,9}" using True by auto
      then have "take 1 (digits_of (n div 10)) \<noteq> ''0''"
        by (subst digits_of.simps) (auto simp: digit_chars_def)
      moreover have "take 1 (digits_of n) = take 1 (digits_of (n div 10))"
        using nf digits_of_nonempty[of "n div 10"] by (subst digits_of.simps) (cases "digits_of (n div 10)", auto)
      ultimately show ?thesis by simp
    next
      case False
      then have "1 < length (digits_of (n div 10))"
        by (subst digits_of.simps) (simp add: Suc_lessI digits_of_nonempty)
      then have "take 1 (digits_of (n div 10)) \<noteq> ''0''" using 1(1) nf by simp
      moreover have "take 1 (digits_of n) = take 1 (digits_of (n div 10))"
        using nf digits_of_nonempty[of "n div 10"] by (subst digits_of.simps) (cases "digits_of (n div 10)", auto)
      ultimately show ?thesis by simp
    qed
  qed
qed

lemma quote_char_roundtrip:
  "parse_chars (quote_char c @ s) = map_option (apfst ((#) c)) (parse_chars s)"
proof -
  consider (q) "c = CHR 0x22" | (b) "c = CHR 0x5C" | (bs) "c = CHR 0x08" | (ff) "c = CHR 0x0C"
    | (nl) "c = CHR 0x0A" | (cr) "c = CHR 0x0D" | (tab) "c = CHR 0x09"
    | (ctl) "c \<notin> {CHR 0x22, CHR 0x5C, CHR 0x08, CHR 0x0C, CHR 0x0A, CHR 0x0D, CHR 0x09}" "(of_char c :: nat) < 0x20"
    | (plain) "c \<noteq> CHR 0x22" "c \<noteq> CHR 0x5C" "\<not> (of_char c :: nat) < 0x20"
    by auto
  then show ?thesis
  proof cases
    case ctl
    let ?n = "of_char c :: nat"
    have d: "?n div 16 < 16" "?n mod 16 < 16" using ctl(2) by auto
    have h: "hex4 (CHR ''0'') (CHR ''0'') (hex_chars ! (?n div 16)) (hex_chars ! (?n mod 16)) = Some ?n"
      using hex_nth[OF d(1)] hex_nth[OF d(2)]
      by (simp add: hex4_def hex_val_def is_digit_def digit_chars_def)
    have u: "utf8 ?n = [c]" using ctl(2) by (simp add: utf8_def)
    have a: "(@) [c] = (#) c" by (rule ext) simp
    show ?thesis using ctl h u a by (simp add: quote_char_def)
  qed (auto simp: quote_char_def unescape_def)
qed

lemma parse_chars_quote:
  "parse_chars (concat (map quote_char s) @ CHR 0x22 # rest) = Some (s, rest)"
  by (induction s) (simp_all add: quote_char_roundtrip)

lemma digit_value_inverse: "nzdigit_of (digit_value d) = d"
  by (cases d) (simp_all add: nzdigit_of_def)

lemma digit_value_range: "0 < digit_value d \<and> digit_value d < 10"
  by (cases d) simp_all

lemma pad_digits_digits: "\<forall>c\<in>set (pad_digits k n). is_digit c"
  by (induction k arbitrary: n) (auto simp: digit_nth)

lemma pad_digits_length: "length (pad_digits k n) = k"
  by (induction k arbitrary: n) auto

lemma digits_val_app: "digits_val (a @ b) = digits_val a * 10 ^ length b + digits_val b"
proof (induction b rule: rev_induct)
  case Nil
  then show ?case by (simp add: digits_val_def)
next
  case (snoc c b)
  have "digits_val (a @ b @ [c]) = 10 * digits_val (a @ b) + (of_char c - 48)"
    using digits_val_append[of "a @ b" c] by simp
  then show ?case using snoc digits_val_append[of b c] by (simp add: algebra_simps)
qed

lemma digits_val_pad: "digits_val (pad_digits k n) = n mod 10 ^ k"
proof (induction k arbitrary: n)
  case 0
  then show ?case by (simp add: digits_val_def)
next
  case (Suc k)
  have "digits_val (pad_digits (Suc k) n) = 10 * (n div 10 mod 10 ^ k) + n mod 10"
    using Suc[of "n div 10"] by (simp add: digits_val_append digit_nth)
  also have "\<dots> = n mod 10 ^ Suc k"
    by (simp add: mod_mult2_eq)
  finally show ?case .
qed

lemma takeWhile_digits:
  assumes "\<forall>c\<in>set ds. is_digit c" "rest = [] \<or> \<not> is_digit (hd rest)"
  shows "takeWhile is_digit (ds @ rest) = ds" "dropWhile is_digit (ds @ rest) = rest"
  using assms by (cases rest; simp add: takeWhile_append2 dropWhile_append2)+

lemma fraction_none: "ok_rest rest \<Longrightarrow> fraction rest = Some ([], rest)"
  by (cases rest) (auto simp: fraction_def ok_rest_def)

lemma exponent_none: "ok_rest rest \<Longrightarrow> exponent rest = Some (0, rest)"
  by (cases rest) (auto simp: exponent_def ok_rest_def)

lemma ok_rest_digit: "ok_rest rest \<Longrightarrow> rest = [] \<or> \<not> is_digit (hd rest)"
  by (auto simp: ok_rest_def)

lemma parse_number_text:
  assumes ok: "ok_rest rest"
  shows "parse_number (number_text i @ rest) = Some (JNum i, rest)"
proof -
  have tw: "takeWhile is_digit (digits_of n @ rest) = digits_of n"
       "dropWhile is_digit (digits_of n @ rest) = rest" for n
    using takeWhile_digits[OF digits_of_digits ok_rest_digit[OF ok]] by blast+
  have nm: "take 1 (digits_of n @ rest) \<noteq> ''-''" for n
    using digits_of_nonempty[of n] digits_of_digits[of n]
    by (cases "digits_of n") (auto simp: is_digit_def digit_chars_def)
  show ?thesis
  proof (cases "i < 0")
    case True
    then show ?thesis
      using tw[of "nat (- i)"] digits_of_nonempty[of "nat (- i)"] digits_of_hd[of "nat (- i)"]
      by (simp add: parse_number_def number_text_def Let_def digits_val_digits_of
            fraction_none[OF ok] exponent_none[OF ok] number_value_def)
  next
    case False
    then show ?thesis
      using tw[of "nat i"] nm[of "nat i"] digits_of_nonempty[of "nat i"] digits_of_hd[of "nat i"]
      by (simp add: parse_number_def number_text_def Let_def digits_val_digits_of
            fraction_none[OF ok] exponent_none[OF ok] number_value_def)
  qed
qed

lemma parse_number_decimal:
  assumes ok: "ok_rest rest"
  shows "parse_number (decimal_text neg (10 * n + digit_value d) (Suc k) @ rest)
           = Some (JDec neg n d k, rest)"
proof -
  let ?m = "10 * n + digit_value d"
  let ?i = "digits_of (?m div 10 ^ Suc k)"
  let ?f = "pad_digits (Suc k) ?m"
  let ?t = "?i @ CHR ''.'' # ?f @ rest"
  have nd: "\<not> is_digit (CHR ''.'')" by (simp add: is_digit_def digit_chars_def)
  have tw: "takeWhile is_digit ?t = ?i" "dropWhile is_digit ?t = CHR ''.'' # ?f @ rest"
    using takeWhile_digits[OF digits_of_digits, of "CHR ''.'' # ?f @ rest" "?m div 10 ^ Suc k"] nd
    by simp_all
  have twf: "takeWhile is_digit (?f @ rest) = ?f" "dropWhile is_digit (?f @ rest) = rest"
    using takeWhile_digits[OF pad_digits_digits ok_rest_digit[OF ok]] by blast+
  have fne: "?f \<noteq> []" by simp
  have fr: "fraction (CHR ''.'' # ?f @ rest) = Some (?f, rest)"
    using twf fne by (simp add: fraction_def del: pad_digits.simps)
  have nm: "take 1 ?t \<noteq> ''-''"
    using digits_of_nonempty[of "?m div 10 ^ Suc k"] digits_of_digits[of "?m div 10 ^ Suc k"]
    by (cases ?i) (auto simp: is_digit_def digit_chars_def)
  have dv: "digits_val (?i @ ?f) = ?m"
    by (simp only: digits_val_app digits_val_digits_of digits_val_pad pad_digits_length div_mult_mod_eq)
  have m10: "?m mod 10 = digit_value d" "?m div 10 = n" "?m mod 10 \<noteq> 0"
    using digit_value_range[of d] by simp_all
  have ex: "nat (- (0 - int (length ?f))) = Suc k" "\<not> 0 \<le> 0 - int (length ?f)"
    by (simp_all add: pad_digits_length del: pad_digits.simps)
  have dec: "decimal neg ?m (Suc k) = JDec neg n d k"
    using m10 by (simp add: digit_value_inverse)
  have val: "number_value neg ?m (0 - int (length ?f)) = JDec neg n d k"
    unfolding number_value_def by (simp only: ex dec if_False)
  have pos: "parse_number ?t = Some (JDec neg n d k, rest)" if "\<not> neg"
    using that tw fr digits_of_nonempty[of "?m div 10 ^ Suc k"] digits_of_hd[of "?m div 10 ^ Suc k"] nm
          exponent_none[OF ok] dv val
    by (simp add: parse_number_def Let_def del: pad_digits.simps)
  have ng: "parse_number (CHR ''-'' # ?t) = Some (JDec neg n d k, rest)" if "neg"
    using that tw fr digits_of_nonempty[of "?m div 10 ^ Suc k"] digits_of_hd[of "?m div 10 ^ Suc k"]
          exponent_none[OF ok] dv val
    by (simp add: parse_number_def Let_def del: pad_digits.simps)
  show ?thesis using pos ng by (cases neg) (simp_all add: decimal_text_def del: pad_digits.simps)
qed

lemma value_start_not_ws: "value_start c \<Longrightarrow> \<not> is_ws c"
  by (auto simp: value_start_def is_ws_def)

lemma number_start: "c = CHR ''-'' \<or> is_digit c \<Longrightarrow> value_start c"
  by (auto simp: value_start_def is_digit_def digit_chars_def)

lemma number_text_hd: "\<exists>c s. number_text i = c # s \<and> (c = CHR ''-'' \<or> is_digit c)"
  using digits_of_nonempty[of "nat i"] digits_of_digits[of "nat i"]
  by (cases "digits_of (nat i)") (auto simp: number_text_def)

lemma decimal_text_hd: "\<exists>c s. decimal_text neg m k = c # s \<and> (c = CHR ''-'' \<or> is_digit c)"
  using digits_of_nonempty[of "m div 10 ^ k"] digits_of_digits[of "m div 10 ^ k"]
  by (cases "digits_of (m div 10 ^ k)") (auto simp: decimal_text_def)

lemma number_first:
  assumes "c = CHR ''-'' \<or> is_digit c"
  shows "c \<noteq> CHR ''[''" "c \<noteq> CHR ''{''" "c \<noteq> CHR 0x22" "c \<noteq> CHR ''n''" "c \<noteq> CHR ''t''"
    "c \<noteq> CHR ''f''" "\<not> is_ws c"
  using assms by (auto simp: is_digit_def digit_chars_def is_ws_def)

lemma stringify_hd: "\<exists>c s. stringify gap ind v = c # s \<and> value_start c"
proof (cases v)
  case (JDec neg n d k)
  then show ?thesis
    using decimal_text_hd[of neg "10 * n + digit_value d" "Suc k"] number_start by auto
next
  case (JNum i)
  obtain d ds where d: "digits_of (nat \<bar>i\<bar>) = d # ds" "is_digit d"
    using digits_of_nonempty[of "nat \<bar>i\<bar>"] digits_of_digits[of "nat \<bar>i\<bar>"]
    by (cases "digits_of (nat \<bar>i\<bar>)") auto
  then have "value_start d" by (auto simp: value_start_def is_digit_def digit_chars_def)
  with d JNum show ?thesis
    by (cases "i < 0") (auto simp: number_text_def value_start_def abs_if)
qed (auto simp: value_start_def QuoteJSONString_def)

lemma all_ws_simps [simp]:
  "all_ws []" "all_ws (c # w) = (is_ws c \<and> all_ws w)" "all_ws (u @ w) = (all_ws u \<and> all_ws w)"
  by (auto simp: all_ws_def)

lemma ok_rest_Cons: "c \<in> set '',]}'' \<Longrightarrow> ok_rest (c # rest)"
  by (auto simp: ok_rest_def is_digit_def digit_chars_def)

lemma ok_rest_space: "is_ws c \<Longrightarrow> ok_rest (c # rest)"
  by (auto simp: ok_rest_def is_ws_def is_digit_def digit_chars_def)

lemma ok_rest_ws: "all_ws w \<Longrightarrow> c \<in> set '',]}'' \<Longrightarrow> ok_rest (w @ c # rest)"
  by (cases w) (simp_all add: ok_rest_Cons ok_rest_space)

lemma skip_ws_ws: "all_ws w \<Longrightarrow> \<not> is_ws c \<Longrightarrow> skip_ws (w @ c # s) = c # s"
  by (simp add: skip_ws_append skip_ws_Cons)

lemma elements_rt:
  fixes pr :: "json \<Rightarrow> string"
  assumes IH: "\<And>x n w rest. x \<in> set xs \<Longrightarrow> jsize x \<le> n \<Longrightarrow> all_ws w \<Longrightarrow> ok_rest rest
                 \<Longrightarrow> parse_value n (w @ pr x @ rest) = Some (x, rest)"
    and ne: "xs \<noteq> []" and ws: "all_ws sepw" "all_ws closew" "all_ws w"
    and fuel: "sum_list (map jsize xs) + length xs \<le> n"
  shows "parse_elements n (w @ join (CHR '','' # sepw) (map pr xs) @ closew @ CHR '']'' # rest)
           = Some (xs, rest)"
  using IH ne ws(3) fuel
proof (induction xs arbitrary: n w)
  case Nil
  then show ?case by simp
next
  case (Cons x xs)
  from Cons.prems(4) obtain m where n: "n = Suc m" by (cases n) auto
  have fx: "jsize x \<le> m" using Cons.prems(4) n by simp
  show ?case
  proof (cases xs)
    case Nil
    have ok: "ok_rest (closew @ CHR '']'' # rest)"
      using ws(2) by (rule ok_rest_ws) simp
    have pv: "parse_value m (w @ pr x @ closew @ CHR '']'' # rest) = Some (x, closew @ CHR '']'' # rest)"
      using Cons.prems(1)[of x m w, OF _ fx Cons.prems(3) ok] by simp
    have sk: "skip_ws (closew @ CHR '']'' # rest) = CHR '']'' # rest"
      using ws(2) by (rule skip_ws_ws) (simp add: is_ws_def)
    show ?thesis using Nil n pv sk by simp
  next
    case (Cons y ys)
    let ?tail = "sepw @ join (CHR '','' # sepw) (map pr xs) @ closew @ CHR '']'' # rest"
    have ok: "ok_rest (CHR '','' # ?tail)"
      by (rule ok_rest_Cons) simp
    have pv: "parse_value m (w @ pr x @ CHR '','' # ?tail) = Some (x, CHR '','' # ?tail)"
      using Cons.prems(1)[of x m w, OF _ fx Cons.prems(3) ok] by simp
    have sk: "skip_ws (CHR '','' # ?tail) = CHR '','' # ?tail"
      by (rule skip_ws_Cons) (simp add: is_ws_def)
    have rec: "parse_elements m ?tail = Some (xs, rest)"
      using Cons.IH[where n=m and w=sepw] Cons.prems(1) Cons.prems(4) n ws(1) Cons by simp
    show ?thesis using Cons n pv sk rec by simp
  qed
qed

lemma members_rt:
  fixes pr :: "json \<Rightarrow> string"
  assumes IH: "\<And>k v n w rest. (k, v) \<in> set kvs \<Longrightarrow> jsize v \<le> n \<Longrightarrow> all_ws w \<Longrightarrow> ok_rest rest
                 \<Longrightarrow> parse_value n (w @ pr v @ rest) = Some (v, rest)"
    and ne: "kvs \<noteq> []" and ws: "all_ws sepw" "all_ws closew" "all_ws colw" "all_ws w"
    and fuel: "sum_list (map (\<lambda>(k, v). jsize v) kvs) + length kvs \<le> n"
  shows "parse_members n
           (w @ join (CHR '','' # sepw) (map (\<lambda>(k, v). QuoteJSONString k @ CHR '':'' # colw @ pr v) kvs)
              @ closew @ CHR ''}'' # rest)
           = Some (kvs, rest)"
  using IH ne ws(4) fuel
proof (induction kvs arbitrary: n w)
  case Nil
  then show ?case by simp
next
  case (Cons kv kvs)
  obtain k v where kv: "kv = (k, v)" by (cases kv)
  from Cons.prems(4) obtain m where n: "n = Suc m" by (cases n) auto
  have fx: "jsize v \<le> m" using Cons.prems(4) n kv by simp
  have key: "parse_chars (concat (map quote_char k) @ CHR 0x22 # t) = Some (k, t)" for t
    by (rule parse_chars_quote)
  have sq: "skip_ws (w @ CHR 0x22 # t) = CHR 0x22 # t" for t
    using Cons.prems(3) by (rule skip_ws_ws) (simp add: is_ws_def)
  have sc: "skip_ws (CHR '':'' # t) = CHR '':'' # t" for t
    by (rule skip_ws_Cons) (simp add: is_ws_def)
  show ?case
  proof (cases kvs)
    case Nil
    have ok: "ok_rest (closew @ CHR ''}'' # rest)"
      using ws(2) by (rule ok_rest_ws) simp
    have pv: "parse_value m (colw @ pr v @ closew @ CHR ''}'' # rest) = Some (v, closew @ CHR ''}'' # rest)"
      using Cons.prems(1)[of k v m colw, OF _ fx ws(3) ok] kv by simp
    have sk: "skip_ws (closew @ CHR ''}'' # rest) = CHR ''}'' # rest"
      using ws(2) by (rule skip_ws_ws) (simp add: is_ws_def)
    show ?thesis using Nil n kv pv sk sq sc key by (simp add: QuoteJSONString_def)
  next
    case (Cons y ys)
    let ?tail = "sepw @ join (CHR '','' # sepw) (map (\<lambda>(k, v). QuoteJSONString k @ CHR '':'' # colw @ pr v) kvs)
                   @ closew @ CHR ''}'' # rest"
    have ok: "ok_rest (CHR '','' # ?tail)"
      by (rule ok_rest_Cons) simp
    have pv: "parse_value m (colw @ pr v @ CHR '','' # ?tail) = Some (v, CHR '','' # ?tail)"
      using Cons.prems(1)[of k v m colw, OF _ fx ws(3) ok] kv by simp
    have sk: "skip_ws (CHR '','' # ?tail) = CHR '','' # ?tail"
      by (rule skip_ws_Cons) (simp add: is_ws_def)
    have rec: "parse_members m ?tail = Some (kvs, rest)"
    proof (rule Cons.IH)
      fix k' v' n' w' rest'
      assume "(k', v') \<in> set kvs" "jsize v' \<le> n'" "all_ws w'" "ok_rest rest'"
      then show "parse_value n' (w' @ pr v' @ rest') = Some (v', rest')"
        using Cons.prems(1)[of k' v' n' w' rest'] by simp
    next
      show "kvs \<noteq> []" using Cons by simp
      show "all_ws sepw" by (rule ws(1))
      show "sum_list (map (\<lambda>(k, v). jsize v) kvs) + length kvs \<le> m"
        using Cons.prems(4) n kv by simp
    qed
    show ?thesis using Cons n kv pv sk rec sq sc key by (simp add: QuoteJSONString_def)
  qed
qed

lemma stringify_JArr:
  "xs \<noteq> [] \<Longrightarrow> stringify gap ind (JArr xs) =
     CHR ''['' # (if gap = [] then [] else CHR 0x0A # ind @ gap)
       @ join (CHR '','' # (if gap = [] then [] else CHR 0x0A # ind @ gap)) (map (stringify gap (ind @ gap)) xs)
       @ (if gap = [] then [] else CHR 0x0A # ind) @ '']''"
  by simp

lemma stringify_JObj:
  "kvs \<noteq> [] \<Longrightarrow> stringify gap ind (JObj kvs) =
     CHR ''{'' # (if gap = [] then [] else CHR 0x0A # ind @ gap)
       @ join (CHR '','' # (if gap = [] then [] else CHR 0x0A # ind @ gap))
           (map (\<lambda>(k, v). QuoteJSONString k @ CHR '':'' # (if gap = [] then [] else '' '') @ stringify gap (ind @ gap) v) kvs)
       @ (if gap = [] then [] else CHR 0x0A # ind) @ ''}''"
  by (auto intro!: arg_cong[where f="join _"] simp: fun_eq_iff)

lemma join_hd: "xs \<noteq> [] \<Longrightarrow> \<exists>t. join sep (map f xs) = f (hd xs) @ t"
  by (cases xs; cases "tl xs") auto

theorem parse_value_stringify:
  assumes gap: "all_ws gap"
  shows "all_ws ind \<Longrightarrow> all_ws w \<Longrightarrow> ok_rest rest \<Longrightarrow> jsize v \<le> n
         \<Longrightarrow> parse_value n (w @ stringify gap ind v @ rest) = Some (v, rest)"
proof (induction v arbitrary: ind w rest n)
  case JNull
  then obtain m where "n = Suc m" by (cases n) auto
  then show ?case using JNull
    by (simp add: skip_ws_append skip_ws_Cons is_ws_def literal_def)
next
  case (JBool b)
  then obtain m where "n = Suc m" by (cases n) auto
  then show ?case using JBool
    by (simp add: skip_ws_append skip_ws_Cons is_ws_def literal_def)
next
  case (JNum i)
  then obtain m where n: "n = Suc m" by (cases n) auto
  obtain c s where cs: "number_text i = c # s" "c = CHR ''-'' \<or> is_digit c"
    using number_text_hd by blast
  note c = number_first[OF cs(2)]
  have pn: "parse_number (c # s @ rest) = Some (JNum i, rest)"
    using parse_number_text[OF JNum(3), of i] cs(1) by simp
  have sk: "skip_ws (w @ c # s @ rest) = c # s @ rest"
    using JNum(2) c(7) by (rule skip_ws_ws)
  show ?case using n cs(1) c pn sk by simp
next
  case (JDec neg k d p)
  then obtain m where n: "n = Suc m" by (cases n) auto
  obtain c s where cs: "decimal_text neg (10 * k + digit_value d) (Suc p) = c # s"
      "c = CHR ''-'' \<or> is_digit c"
    using decimal_text_hd by blast
  note c = number_first[OF cs(2)]
  have pn: "parse_number (c # s @ rest) = Some (JDec neg k d p, rest)"
    using parse_number_decimal[OF JDec(3), of neg k d p] cs(1) by simp
  have sk: "skip_ws (w @ c # s @ rest) = c # s @ rest"
    using JDec(2) c(7) by (rule skip_ws_ws)
  show ?case using n cs(1) c pn sk by simp
next
  case (JStr s)
  then obtain m where n: "n = Suc m" by (cases n) auto
  have sk: "skip_ws (w @ CHR 0x22 # t) = CHR 0x22 # t" for t
    using JStr(2) by (rule skip_ws_ws) (simp add: is_ws_def)
  show ?case using n sk parse_chars_quote[of s rest] by (simp add: QuoteJSONString_def)
next
  case (JArr xs)
  then obtain m where n: "n = Suc m" by (cases n) auto
  have sk: "skip_ws (w @ CHR ''['' # t) = CHR ''['' # t" for t
    using JArr(3) by (rule skip_ws_ws) (simp add: is_ws_def)
  show ?case
  proof (cases "xs = []")
    case True
    have "skip_ws (CHR '']'' # rest) = CHR '']'' # rest" by (rule skip_ws_Cons) (simp add: is_ws_def)
    then show ?thesis using True n sk by simp
  next
    case False
    let ?ow = "if gap = [] then [] else CHR 0x0A # ind @ gap"
    let ?cw = "if gap = [] then [] else CHR 0x0A # ind"
    let ?pr = "stringify gap (ind @ gap)"
    let ?body = "join (CHR '','' # ?ow) (map ?pr xs) @ ?cw @ CHR '']'' # rest"
    have ows: "all_ws ?ow" "all_ws ?cw" using gap JArr(2) by (auto simp: is_ws_def)
    have el: "parse_elements m (?ow @ ?body) = Some (xs, rest)"
    proof (rule elements_rt[where pr="?pr"])
      fix x n' w' rest'
      assume "x \<in> set xs" "jsize x \<le> n'" "all_ws w'" "ok_rest rest'"
      then show "parse_value n' (w' @ ?pr x @ rest') = Some (x, rest')"
        using JArr(1)[of x "ind @ gap" w' rest' n'] gap JArr(2) by simp
    next
      show "sum_list (map jsize xs) + length xs \<le> m" using JArr(5) n by simp
    qed (use False ows in auto)
    obtain c s where cs: "?pr (hd xs) = c # s" "value_start c"
      using stringify_hd by blast
    have c: "\<not> is_ws c" "c \<noteq> CHR '']''" using cs(2) by (auto simp: value_start_def is_ws_def)
    obtain t where t: "join (CHR '','' # ?ow) (map ?pr xs) = ?pr (hd xs) @ t"
      using join_hd[OF False] by blast
    have sw: "skip_ws (?ow @ ?body) = c # s @ t @ ?cw @ CHR '']'' # rest"
      using skip_ws_ws[OF ows(1) c(1)] by (simp only: t cs(1) append_Cons append_assoc)
    have step: "parse_value (Suc m) (w @ CHR ''['' # R) =
        (case skip_ws R of [] \<Rightarrow> None
         | d # r' \<Rightarrow> if d = CHR '']'' then Some (JArr [], r') else map_option (apfst JArr) (parse_elements m R))" for R
      using sk by simp
    have "w @ stringify gap ind (JArr xs) @ rest = w @ CHR ''['' # ?ow @ ?body"
      by (simp only: stringify_JArr[OF False]) simp
    then show ?thesis using n step[of "?ow @ ?body"] sw el c(2) by simp
  qed
next
  case (JObj kvs)
  then obtain m where n: "n = Suc m" by (cases n) auto
  have sk: "skip_ws (w @ CHR ''{'' # t) = CHR ''{'' # t" for t
    using JObj(3) by (rule skip_ws_ws) (simp add: is_ws_def)
  show ?case
  proof (cases "kvs = []")
    case True
    have "skip_ws (CHR ''}'' # rest) = CHR ''}'' # rest" by (rule skip_ws_Cons) (simp add: is_ws_def)
    then show ?thesis using True n sk by simp
  next
    case False
    let ?ow = "if gap = [] then [] else CHR 0x0A # ind @ gap"
    let ?cw = "if gap = [] then [] else CHR 0x0A # ind"
    let ?col = "if gap = [] then [] else '' ''"
    let ?pr = "stringify gap (ind @ gap)"
    let ?mem = "\<lambda>(k, v). QuoteJSONString k @ CHR '':'' # ?col @ ?pr v"
    let ?body = "join (CHR '','' # ?ow) (map ?mem kvs) @ ?cw @ CHR ''}'' # rest"
    have ows: "all_ws ?ow" "all_ws ?cw" "all_ws ?col" using gap JObj(2) by (auto simp: is_ws_def)
    have el: "parse_members m (?ow @ ?body) = Some (kvs, rest)"
    proof (rule members_rt[where pr="?pr"])
      fix k v n' w' rest'
      assume "(k, v) \<in> set kvs" "jsize v \<le> n'" "all_ws w'" "ok_rest rest'"
      then show "parse_value n' (w' @ ?pr v @ rest') = Some (v, rest')"
        using JObj(1)[of "(k, v)" v "ind @ gap" w' rest' n'] gap JObj(2) by simp
    next
      show "sum_list (map (\<lambda>(k, v). jsize v) kvs) + length kvs \<le> m" using JObj(5) n by simp
    qed (use False ows in auto)
    obtain k v where kv: "hd kvs = (k, v)" by (cases "hd kvs")
    obtain t where t: "join (CHR '','' # ?ow) (map ?mem kvs) = ?mem (hd kvs) @ t"
      using join_hd[OF False] by blast
    have q: "\<not> is_ws (CHR 0x22)" by (simp add: is_ws_def)
    obtain u0 where u0: "?mem (hd kvs) = CHR 0x22 # u0"
      by (simp add: kv QuoteJSONString_def)
    have "?ow @ ?body = ?ow @ CHR 0x22 # (u0 @ t @ ?cw @ CHR ''}'' # rest)"
      by (simp only: t u0 append_Cons append_assoc)
    then have sw: "\<exists>u. skip_ws (?ow @ ?body) = CHR 0x22 # u"
      using skip_ws_ws[OF ows(1) q] by (simp only:) blast
    have step: "parse_value (Suc m) (w @ CHR ''{'' # R) =
        (case skip_ws R of [] \<Rightarrow> None
         | d # r' \<Rightarrow> if d = CHR ''}'' then Some (JObj [], r') else map_option (apfst JObj) (parse_members m R))" for R
      using sk by simp
    have "w @ stringify gap ind (JObj kvs) @ rest = w @ CHR ''{'' # ?ow @ ?body"
      by (simp only: stringify_JObj[OF False]) simp
    then show ?thesis using n step[of "?ow @ ?body"] sw el by auto
  qed
qed

lemma join_length_ge:
  "ys \<noteq> [] \<Longrightarrow> sep \<noteq> [] \<Longrightarrow> sum_list (map length ys) + length ys \<le> Suc (length (join sep ys))"
proof (induction sep ys rule: join.induct)
  case (3 sep x y ys)
  then have "sum_list (map length (y # ys)) + length (y # ys) \<le> Suc (length (join sep (y # ys)))" by simp
  moreover have "1 \<le> length sep" using 3(3) by (cases sep) auto
  ultimately show ?case by simp
qed auto

lemma jsize_le_length: "jsize v \<le> length (stringify gap ind v)"
proof (induction v arbitrary: ind)
  case (JNum i)
  then show ?case using number_text_hd[of i] by auto
next
  case (JDec neg n d k)
  then show ?case using decimal_text_hd[of neg "10 * n + digit_value d" "Suc k"] by auto
next
  case (JStr s)
  then show ?case by (simp add: QuoteJSONString_def)
next
  case (JArr xs)
  show ?case
  proof (cases "xs = []")
    case False
    let ?ys = "map (stringify gap (ind @ gap)) xs"
    have "sum_list (map jsize xs) \<le> sum_list (map length ?ys)"
      unfolding map_map comp_def by (rule sum_list_mono) (use JArr in auto)
    moreover have "sum_list (map length ?ys) + length ?ys \<le> Suc (length (join sep ?ys))" if "sep \<noteq> []" for sep
      using False that by (intro join_length_ge) auto
    ultimately have "sum_list (map jsize xs) + length xs \<le> Suc (length (join sep ?ys))" if "sep \<noteq> []" for sep
      using that by fastforce
    from this[of "'',''"] this[of "'','' @ CHR 0x0A # (ind @ gap)"]
    show ?thesis using False by auto
  qed simp
next
  case (JObj kvs)
  show ?case
  proof (cases "kvs = []")
    case False
    have main: "sum_list (map (\<lambda>(k, v). jsize v) kvs) + length kvs \<le> Suc (length (join sep (map (\<lambda>(k, v). QuoteJSONString k @ col @ stringify gap (ind @ gap) v) kvs)))"
      if "sep \<noteq> []" for sep col
    proof -
      let ?ys = "map (\<lambda>(k, v). QuoteJSONString k @ col @ stringify gap (ind @ gap) v) kvs"
      have "sum_list (map (\<lambda>(k, v). jsize v) kvs) \<le> sum_list (map length ?ys)"
        unfolding map_map comp_def
      proof (rule sum_list_mono)
        fix kv assume kv: "kv \<in> set kvs"
        obtain k v where e: "kv = (k, v)" by (cases kv)
        have "jsize v \<le> length (stringify gap (ind @ gap) v)"
          using JObj[of kv v "ind @ gap"] kv e by simp
        then show "(case kv of (k, v) \<Rightarrow> jsize v) \<le> length (case kv of (k, v) \<Rightarrow> QuoteJSONString k @ col @ stringify gap (ind @ gap) v)"
          by (simp add: e)
      qed
      moreover have "sum_list (map length ?ys) + length ?ys \<le> Suc (length (join sep ?ys))"
        using False that by (intro join_length_ge) auto
      ultimately show ?thesis by fastforce
    qed
    from main[of "'',''" "'':''"] main[of "'','' @ CHR 0x0A # (ind @ gap)" "'': ''"]
    show ?thesis using False by auto
  qed simp
qed auto

theorem JSON_parse_stringify:
  assumes "all_ws gap"
  shows "JSON_parse (JSON_stringify gap v) = Some v"
proof -
  have "parse_value (Suc (length (stringify gap [] v))) ([] @ stringify gap [] v @ []) = Some (v, [])"
    using assms by (intro parse_value_stringify) (auto simp: ok_rest_def jsize_le_length le_SucI)
  then show ?thesis by (simp add: JSON_parse_def JSON_stringify_def skip_ws_def)
qed

lemma json_record_record_json: "json_record (record_json r) = Some r"
  by (simp add: json_record_def record_json_def)

lemma those_map_Some: "(\<And>x. x \<in> set xs \<Longrightarrow> f x = Some (g x)) \<Longrightarrow> those (map f xs) = Some (map g xs)"
  by (induction xs) auto

lemma those_map_Some_id: "those (map Some xs) = Some xs"
  by (induction xs) auto

lemma records_of_records_json: "records_of (records_json rs) = Some rs"
  by (simp add: records_of_def records_json_def json_record_record_json comp_def those_map_Some_id)

subsection \<open>JSON: the fuel of the parser is enough\<close>

lemma skip_ws_length: "length (skip_ws s) \<le> length s"
  by (simp add: skip_ws_def length_dropWhile_le)

lemma parse_chars_length: "parse_chars s = Some (k, r) \<Longrightarrow> length r < length s"
proof (induction "length s" arbitrary: s k r rule: less_induct)
  case less
  note ih = less.hyps
  from less.prems obtain c t where s: "s = c # t" by (cases s) auto
  have rec: "parse_chars t' = Some (k', r) \<Longrightarrow> length t' \<le> length t \<Longrightarrow> length r < length s" for t' k'
    using ih[of t' k' r] s by simp
  show ?case
    using less.prems rec unfolding s
    by (auto split: if_splits list.splits option.splits simp del: parse_chars.simps(2)
             simp add: parse_chars.simps(2)[of c t])
qed

lemma dropWhile_shorter: "takeWhile P xs \<noteq> [] \<Longrightarrow> length (dropWhile P xs) < length xs"
  by (cases xs) (auto simp: le_imp_less_Suc length_dropWhile_le split: if_splits)

lemma fraction_length: "fraction s = Some (fs, r) \<Longrightarrow> length r \<le> length s"
  by (cases s) (auto simp: fraction_def length_dropWhile_le le_SucI split: if_splits)

lemma exponent_length: "exponent s = Some (e, r) \<Longrightarrow> length r \<le> length s"
proof (cases s)
  case Nil
  assume "exponent s = Some (e, r)"
  then show ?thesis using Nil by (simp add: exponent_def)
next
  case (Cons c t)
  assume a: "exponent s = Some (e, r)"
  show ?thesis
  proof (cases "c \<noteq> CHR ''e'' \<and> c \<noteq> CHR ''E''")
    case True
    then show ?thesis using a Cons by (simp add: exponent_def)
  next
    case False
    let ?r = "if take 1 t = ''-'' \<or> take 1 t = ''+'' then drop 1 t else t"
    have "r = dropWhile is_digit ?r"
      using a Cons False by (auto simp: exponent_def Let_def split: if_splits)
    then have "length r \<le> length ?r" by (simp add: length_dropWhile_le)
    moreover have "length ?r \<le> length t" by simp
    ultimately show ?thesis using Cons by simp
  qed
qed

lemma parse_number_length: "parse_number s = Some (i, r) \<Longrightarrow> length r < length s"
proof -
  assume a: "parse_number s = Some (i, r)"
  let ?r = "if take 1 s = ''-'' then drop 1 s else s"
  have ne: "takeWhile is_digit ?r \<noteq> []"
    using a by (auto simp: parse_number_def Let_def split: if_splits)
  obtain fs r1 e where f: "fraction (dropWhile is_digit ?r) = Some (fs, r1)" and x: "exponent r1 = Some (e, r)"
    using a ne by (auto simp: parse_number_def Let_def split: if_splits option.splits)
  have "length (dropWhile is_digit ?r) < length ?r" using ne by (rule dropWhile_shorter)
  moreover have "length ?r \<le> length s" by simp
  ultimately show ?thesis using fraction_length[OF f] exponent_length[OF x] by linarith
qed

lemma literal_length: "literal w s = Some r \<Longrightarrow> w \<noteq> [] \<Longrightarrow> length r < length s"
  by (cases w) (auto simp: literal_def split: if_splits list.splits, cases s, auto)

lemma skip_ws_Cons_length: "skip_ws s = c # r \<Longrightarrow> length r < length s"
  using skip_ws_length[of s] by simp

lemma fuel_value_step:
  assumes e: "fuel_ok_elements n" and mb: "fuel_ok_members n"
  shows "fuel_ok_value (Suc n)"
  unfolding fuel_ok_value_def
proof (intro allI impI)
  fix s v r
  assume a: "parse_value (Suc n) s = Some (v, r)"
  then obtain c t where t: "skip_ws s = c # t" by (cases "skip_ws s") auto
  have lt: "length t < length s" using t by (rule skip_ws_Cons_length)
  have branch: "length r \<le> length t \<and> (\<forall>m. length t - length r \<le> m \<longrightarrow> parse_value (Suc m) s = Some (v, r))"
  proof (cases "c = CHR ''[''")
    case True
    from a t True obtain d t' where d: "skip_ws t = d # t'" by (cases "skip_ws t") auto
    show ?thesis
    proof (cases "d = CHR '']''")
      case True
      then have "r = t'" "v = JArr []" using a t d \<open>c = CHR ''[''\<close> by auto
      then show ?thesis using t d True \<open>c = CHR ''[''\<close> skip_ws_Cons_length[OF d] by auto
    next
      case False
      then obtain vs where vs: "parse_elements n t = Some (vs, r)" "v = JArr vs"
        using a t d \<open>c = CHR ''[''\<close> by auto
      from e[unfolded fuel_ok_elements_def, rule_format, OF vs(1)]
      show ?thesis using t d False \<open>c = CHR ''[''\<close> vs(2) by auto
    qed
  next
    case False
    note nb = False
    show ?thesis
    proof (cases "c = CHR ''{''")
      case True
      from a t True obtain d t' where d: "skip_ws t = d # t'" by (cases "skip_ws t") auto
      show ?thesis
      proof (cases "d = CHR ''}''")
        case True
        then have "r = t'" "v = JObj []" using a t d \<open>c = CHR ''{''\<close> by auto
        then show ?thesis using t d True \<open>c = CHR ''{''\<close> skip_ws_Cons_length[OF d] by auto
      next
        case False
        then obtain kvs where kvs: "parse_members n t = Some (kvs, r)" "v = JObj kvs"
          using a t d \<open>c = CHR ''{''\<close> by auto
        from mb[unfolded fuel_ok_members_def, rule_format, OF kvs(1)]
        show ?thesis using t d False \<open>c = CHR ''{''\<close> kvs(2) by auto
      qed
    next
      case False
      note nc = False
      have same: "parse_value (Suc m) s = parse_value (Suc n) s" for m
        using t nb nc by simp
      have "length r \<le> length t"
      proof (cases "c = CHR 0x22")
        case True
        then obtain k where "parse_chars t = Some (k, r)" using a t by auto
        then show ?thesis using parse_chars_length by fastforce
      next
        case False
        then have "(\<exists>w. w \<noteq> [] \<and> literal w (c # t) = Some r) \<or> (\<exists>i. parse_number (c # t) = Some (i, r))"
          using a t nb nc by (auto split: if_splits)
        then show ?thesis using literal_length[of _ "c # t" r] parse_number_length[of "c # t" _ r]
          by fastforce
      qed
      then show ?thesis using same a by simp
    qed
  qed
  show "length r < length s \<and> (\<forall>m. length s - length r \<le> m \<longrightarrow> parse_value m s = Some (v, r))"
  proof (intro conjI allI impI)
    show "length r < length s" using branch lt by simp
    fix m assume m: "length s - length r \<le> m"
    then obtain m' where m': "m = Suc m'" using branch lt by (cases m) auto
    then have "length t - length r \<le> m'" using m lt branch by simp
    then show "parse_value m s = Some (v, r)" using branch m' by simp
  qed
qed

lemma fuel_elements_step:
  assumes v: "fuel_ok_value n" and e: "fuel_ok_elements n"
  shows "fuel_ok_elements (Suc n)"
  unfolding fuel_ok_elements_def
proof (intro allI impI)
  fix s vs r
  assume a: "parse_elements (Suc n) s = Some (vs, r)"
  then obtain x r1 where x: "parse_value n s = Some (x, r1)" by (cases "parse_value n s") auto
  from a x obtain c r2 where c: "skip_ws r1 = c # r2" by (cases "skip_ws r1") auto
  note vx = v[unfolded fuel_ok_value_def, rule_format, OF x]
  have l2: "length r2 < length r1" using c by (rule skip_ws_Cons_length)
  have branch: "length r \<le> length r2 \<and>
     (\<forall>m. length s - length r - 1 \<le> m \<longrightarrow>
           (case skip_ws r1 of [] \<Rightarrow> None
            | c # r' \<Rightarrow> if c = CHR '','' then map_option (apfst ((#) x)) (parse_elements m r')
                        else if c = CHR '']'' then Some ([x], r') else None) = Some (vs, r))"
  proof (cases "c = CHR '',''")
    case True
    then obtain ys where ys: "parse_elements n r2 = Some (ys, r)" "vs = x # ys"
      using a x c by auto
    note ey = e[unfolded fuel_ok_elements_def, rule_format, OF ys(1)]
    show ?thesis using ey c True ys(2) l2 vx by auto
  next
    case False
    then have "c = CHR '']''" "r = r2" "vs = [x]" using a x c by (auto split: if_splits)
    then show ?thesis using c by auto
  qed
  show "length r < length s \<and> (\<forall>m. length s - length r \<le> m \<longrightarrow> parse_elements m s = Some (vs, r))"
  proof (intro conjI allI impI)
    show lr: "length r < length s" using branch l2 vx by simp
    fix m assume m: "length s - length r \<le> m"
    then obtain m' where m': "m = Suc m'" using lr by (cases m) auto
    have "length r \<le> length r2" "length r1 < length s" using branch vx by blast+
    then have "length s - length r1 \<le> m'" using m m' l2 by arith
    then have pv: "parse_value m' s = Some (x, r1)" using vx by simp
    have "length s - length r - 1 \<le> m'" using m m' by simp
    then show "parse_elements m s = Some (vs, r)" using branch pv m' by simp
  qed
qed

lemma fuel_members_step:
  assumes v: "fuel_ok_value n" and e: "fuel_ok_members n"
  shows "fuel_ok_members (Suc n)"
  unfolding fuel_ok_members_def
proof (intro allI impI)
  fix s kvs r
  assume a: "parse_members (Suc n) s = Some (kvs, r)"
  then obtain q t where q: "skip_ws s = q # t" by (cases "skip_ws s") auto
  have qq: "q = CHR 0x22" using a q by (auto split: if_splits)
  from a q qq obtain k r1 where k: "parse_chars t = Some (k, r1)" by (cases "parse_chars t") auto
  from a q qq k obtain c r2 where c: "skip_ws r1 = c # r2" by (cases "skip_ws r1") auto
  have cc: "c = CHR '':''" using a q qq k c by (auto split: if_splits)
  from a q qq k c cc obtain x r3 where x: "parse_value n r2 = Some (x, r3)"
    by (cases "parse_value n r2") auto
  from a q qq k c cc x obtain d r4 where d: "skip_ws r3 = d # r4" by (cases "skip_ws r3") auto
  note vx = v[unfolded fuel_ok_value_def, rule_format, OF x]
  have lens: "length t < length s" "length r1 < length t" "length r2 < length r1" "length r4 < length r3"
    using q k c d skip_ws_Cons_length parse_chars_length by blast+
  have branch: "length r \<le> length r4 \<and>
     (\<forall>m. length s - length r - 1 \<le> m \<longrightarrow>
           (case skip_ws r3 of [] \<Rightarrow> None
            | d # r' \<Rightarrow> if d = CHR '','' then map_option (apfst ((#) (k, x))) (parse_members m r')
                        else if d = CHR ''}'' then Some ([(k, x)], r') else None) = Some (kvs, r))"
  proof (cases "d = CHR '',''")
    case True
    then obtain ys where ys: "parse_members n r4 = Some (ys, r)" "kvs = (k, x) # ys"
      using a q qq k c cc x d by auto
    note ey = e[unfolded fuel_ok_members_def, rule_format, OF ys(1)]
    show ?thesis using ey d True ys(2) lens vx by auto
  next
    case False
    then have "d = CHR ''}''" "r = r4" "kvs = [(k, x)]" using a q qq k c cc x d by (auto split: if_splits)
    then show ?thesis using d by auto
  qed
  show "length r < length s \<and> (\<forall>m. length s - length r \<le> m \<longrightarrow> parse_members m s = Some (kvs, r))"
  proof (intro conjI allI impI)
    show lr: "length r < length s" using branch lens vx by simp
    fix m assume m: "length s - length r \<le> m"
    then obtain m' where m': "m = Suc m'" using lr by (cases m) auto
    have "length r \<le> length r4" "length r3 < length r2" using branch vx by blast+
    then have "length r2 - length r3 \<le> m'" using m m' lens by arith
    then have pv: "parse_value m' r2 = Some (x, r3)" using vx by simp
    have "length s - length r - 1 \<le> m'" using m m' by simp
    then show "parse_members m s = Some (kvs, r)" using branch pv m' q qq k c cc by simp
  qed
qed

lemma fuel_ok: "fuel_ok_value n \<and> fuel_ok_elements n \<and> fuel_ok_members n"
proof (induction n)
  case 0
  show ?case by (simp add: fuel_ok_value_def fuel_ok_elements_def fuel_ok_members_def)
next
  case (Suc n)
  then show ?case using fuel_value_step fuel_elements_step fuel_members_step by blast
qed

text \<open>The fuel \<^term>\<open>Suc (length s)\<close> that \<^const>\<open>JSON_parse\<close> gives the parser is always enough:
  whatever some fuel parses, that fuel parses too, so that \<^const>\<open>JSON_parse\<close> answers
  \<^const>\<open>None\<close> only on a text that no fuel parses completely.\<close>
theorem parse_value_fuel:
  assumes "parse_value n s = Some (v, r)"
  shows "parse_value (Suc (length s)) s = Some (v, r)"
proof -
  note f = fuel_ok[of n, THEN conjunct1, unfolded fuel_ok_value_def, rule_format, OF assms]
  have "length s - length r \<le> Suc (length s)" by simp
  with f show ?thesis by blast
qed

theorem JSON_parse_None:
  assumes "JSON_parse s = None"
  shows "parse_value n s = None \<or> (\<exists>v r. parse_value n s = Some (v, r) \<and> skip_ws r \<noteq> [])"
proof (cases "parse_value n s")
  case None
  then show ?thesis by simp
next
  case (Some p)
  obtain v r where p: "p = (v, r)" by (cases p)
  have "parse_value (Suc (length s)) s = Some (v, r)" using Some p by (intro parse_value_fuel) simp
  then have "skip_ws r \<noteq> []" using assms by (auto simp: JSON_parse_def split: if_splits)
  then show ?thesis using Some p by simp
qed


subsection \<open>The metadata store\<close>

lemma stringify_empty_array: "JSON_stringify [] (JArr []) = ''[]''"
  by (simp add: JSON_stringify_def)

lemma JSON_parse_pretty: "JSON_parse (JSON_stringify ''  '' v) = Some v"
  by (rule JSON_parse_stringify) (simp add: is_ws_def)

lemma loadMeta_parsed:
  "fs (META_PATH cfg) = Some (File raw) \<Longrightarrow> JSON_parse raw = Some v \<Longrightarrow> loadMeta cfg fs = Inr (v, fs)"
  by (simp add: loadMeta_def readFileSync_def)

lemma saveMeta_result:
  "saveMeta cfg v fs = Inr fs' \<Longrightarrow> fs' = fs(META_PATH cfg \<mapsto> File (JSON_stringify ''  '' v))"
  by (auto simp: saveMeta_def writeFileSync_def split: option.splits node.splits)

lemma saveMeta_ok:
  "fs (META_PATH cfg) \<noteq> Some Directory \<Longrightarrow>
   saveMeta cfg v fs = Inr (fs(META_PATH cfg \<mapsto> File (JSON_stringify ''  '' v)))"
  by (auto simp: saveMeta_def writeFileSync_def split: option.splits node.splits)

lemma loadMeta_saved:
  "loadMeta cfg (fs(META_PATH cfg \<mapsto> File (JSON_stringify ''  '' v))) =
     Inr (v, fs(META_PATH cfg \<mapsto> File (JSON_stringify ''  '' v)))"
  by (rule loadMeta_parsed[where raw="JSON_stringify ''  '' v"])
     (simp_all add: JSON_parse_pretty)

lemma store_saved:
  "store cfg (fs(META_PATH cfg \<mapsto> File (JSON_stringify ''  '' (records_json rs)))) = Some rs"
  by (simp add: store_def readFileSync_def JSON_parse_pretty records_of_records_json)

lemma store_load:
  "store cfg fs = Some rs \<Longrightarrow> \<exists>v. loadMeta cfg fs = Inr (v, fs) \<and> the_records v = Inr rs"
  by (auto simp: store_def loadMeta_def the_records_def readFileSync_def
           split: option.splits node.splits sum.splits)

lemma store_file:
  "store cfg fs = Some rs \<Longrightarrow> \<exists>raw. fs (META_PATH cfg) = Some (File raw)"
  by (auto simp: store_def readFileSync_def split: option.splits node.splits)

lemma example_meta_path: "META_PATH example_cfg = ''uploads/metadata.json''"
  by (simp add: META_PATH_def path_join_def example_cfg_def)

lemma parse_garbage: "JSON_parse ''{oops'' = None"
  by code_simp

text \<open>
  Claim C2. For every sequence of records \<open>R\<close>: when \<open>saveMeta\<close> has written \<open>R\<close>,
  \<open>loadMeta\<close> on the resulting disk returns the array of exactly the records of \<open>R\<close>,
  without touching the disk; the document then holds \<open>R\<close>.
\<close>

theorem load_after_save:
  assumes "saveMeta cfg (records_json R) fs = Inr fs'"
  shows "loadMeta cfg fs' = Inr (records_json R, fs') \<and> the_records (records_json R) = Inr R
         \<and> store cfg fs' = Some R"
  using saveMeta_result[OF assms] loadMeta_saved[of cfg fs "records_json R"] store_saved[of cfg fs R]
  by (simp add: the_records_def records_of_records_json)

theorem load_after_save_witness:
  "saveMeta example_cfg (records_json [example_record ''a'' ''t1'']) Map.empty
     = Inr [''uploads/metadata.json'' \<mapsto> File (JSON_stringify ''  '' (records_json [example_record ''a'' ''t1'']))]
   \<and> loadMeta example_cfg [''uploads/metadata.json'' \<mapsto> File (JSON_stringify ''  '' (records_json [example_record ''a'' ''t1'']))]
     = Inr (records_json [example_record ''a'' ''t1''],
            [''uploads/metadata.json'' \<mapsto> File (JSON_stringify ''  '' (records_json [example_record ''a'' ''t1'']))])
   \<and> store example_cfg [''uploads/metadata.json'' \<mapsto> File (JSON_stringify ''  '' (records_json [example_record ''a'' ''t1'']))]
     = Some [example_record ''a'' ''t1'']"
proof -
  have h: "saveMeta example_cfg (records_json [example_record ''a'' ''t1'']) Map.empty
     = Inr [''uploads/metadata.json'' \<mapsto> File (JSON_stringify ''  '' (records_json [example_record ''a'' ''t1'']))]"
    by (simp add: saveMeta_def writeFileSync_def example_meta_path)
  show ?thesis using h load_after_save[OF h] by simp
qed

text \<open>
  Claim C3, amended. Whenever reading the metadata document fails (it is missing, or its
  path is a directory) or parsing it fails (its content is not valid JSON), \<open>loadMeta\<close>
  runs its \<^verbatim>\<open>catch\<close> block, and the write of that block (line 61) is not guarded. Where
  the path is not a directory, \<open>loadMeta\<close> raises nothing: it rewrites the document as the
  empty array and returns the empty array. Where the path is a directory, the write
  fails as the read did and \<open>loadMeta\<close> raises that error to its caller.
\<close>

theorem loadMeta_resets:
  assumes "(\<exists>e. readFileSync fs (META_PATH cfg) = Inl e)
           \<or> (\<exists>raw. readFileSync fs (META_PATH cfg) = Inr raw \<and> JSON_parse raw = None)"
  shows "(fs (META_PATH cfg) \<noteq> Some Directory \<longrightarrow>
            loadMeta cfg fs = Inr (JArr [], fs(META_PATH cfg \<mapsto> File ''[]''))
          \<and> the_records (JArr []) = Inr []
          \<and> store cfg (fs(META_PATH cfg \<mapsto> File ''[]'')) = Some [])
       \<and> (fs (META_PATH cfg) = Some Directory \<longrightarrow>
            loadMeta cfg fs = Inl (SystemError ''EISDIR''))"
proof (intro conjI impI)
  assume nd: "fs (META_PATH cfg) \<noteq> Some Directory"
  have w: "writeFileSync fs (META_PATH cfg) ''[]'' = Inr (fs(META_PATH cfg \<mapsto> File ''[]''))"
    using nd by (auto simp: writeFileSync_def split: option.splits node.splits)
  show "loadMeta cfg fs = Inr (JArr [], fs(META_PATH cfg \<mapsto> File ''[]''))"
    using assms w by (auto simp: loadMeta_def stringify_empty_array)
  show "the_records (JArr []) = Inr []" by (simp add: the_records_def records_of_def)
  have "JSON_parse ''[]'' = Some (JArr [])"
    using JSON_parse_stringify[of "[]" "JArr []"] by (simp add: stringify_empty_array)
  then show "store cfg (fs(META_PATH cfg \<mapsto> File ''[]'')) = Some []"
    by (simp add: store_def readFileSync_def records_of_def)
next
  assume "fs (META_PATH cfg) = Some Directory"
  then show "loadMeta cfg fs = Inl (SystemError ''EISDIR'')"
    by (simp add: loadMeta_def readFileSync_def writeFileSync_def)
qed

theorem loadMeta_resets_witness:
  "loadMeta example_cfg [''uploads/metadata.json'' \<mapsto> File ''{oops'']
     = Inr (JArr [], [''uploads/metadata.json'' \<mapsto> File ''[]''])
   \<and> loadMeta example_cfg Map.empty = Inr (JArr [], [''uploads/metadata.json'' \<mapsto> File ''[]''])
   \<and> store example_cfg [''uploads/metadata.json'' \<mapsto> File ''[]''] = Some []
   \<and> loadMeta example_cfg [''uploads/metadata.json'' \<mapsto> Directory] = Inl (SystemError ''EISDIR'')"
  using loadMeta_resets[of "[''uploads/metadata.json'' \<mapsto> File ''{oops'']" example_cfg]
        loadMeta_resets[of Map.empty example_cfg]
        loadMeta_resets[of "[''uploads/metadata.json'' \<mapsto> Directory]" example_cfg]
  by (simp add: example_meta_path parse_garbage readFileSync_def)

text \<open>
  Claim C3 as stated fails. A directory at the metadata path is a state in which reading
  the document fails, and there \<open>loadMeta\<close> raises instead of returning the empty array:
  the reset write fails with the error of the read.
\<close>

theorem loadMeta_directory_raises:
  "readFileSync [''uploads/metadata.json'' \<mapsto> Directory] (META_PATH example_cfg)
     = Inl (SystemError ''EISDIR'')
   \<and> loadMeta example_cfg [''uploads/metadata.json'' \<mapsto> Directory]
     = Inl (SystemError ''EISDIR'')"
  by (simp add: loadMeta_def readFileSync_def writeFileSync_def example_meta_path)

text \<open>
  Valid JSON that is not what the server writes is read, not reset: numbers with a
  fraction or an exponent are numbers.
\<close>

lemma parse_numbers:
  "JSON_parse ''[1.5, 3.0, -0.25e1, 1E3]'' = Some (JArr [JDec False 1 D5 0, JNum 3, JDec True 2 D5 0, JNum 1000])"
  by code_simp

lemma loadMeta_numbers:
  "loadMeta example_cfg [''uploads/metadata.json'' \<mapsto> File ''[1.5, 3.0, -0.25e1, 1E3]'']
     = Inr (JArr [JDec False 1 D5 0, JNum 3, JDec True 2 D5 0, JNum 1000],
            [''uploads/metadata.json'' \<mapsto> File ''[1.5, 3.0, -0.25e1, 1E3]''])"
  by (rule loadMeta_parsed[OF _ parse_numbers]) (simp add: example_meta_path)

subsection \<open>Lookup by identifier\<close>

lemma findIndex_ge: "- 1 \<le> findIndex P xs"
  by (induction xs) (auto simp: Let_def)

lemma findIndex_none: "(findIndex P xs = - 1) = (\<forall>x\<in>set xs. \<not> P x)"
proof (induction xs)
  case (Cons x xs)
  then show ?case using findIndex_ge[of P xs] by (auto simp: Let_def)
qed simp

lemma find_none_ids: "(getFileInfoById i rs = None) = (i \<notin> id' ` set rs)"
  by (auto simp: getFileInfoById_def find_None_iff)

lemma find_some_id: "getFileInfoById i rs = Some r \<Longrightarrow> id' r = i \<and> r \<in> set rs"
  by (auto simp: getFileInfoById_def find_Some_iff)

lemma findIndex_find:
  "find P xs = Some r \<Longrightarrow>
     0 \<le> findIndex P xs \<and> xs ! nat (findIndex P xs) = r
     \<and> splice1 (nat (findIndex P xs)) xs = remove1 r xs"
proof (induction xs)
  case Nil
  then show ?case by simp
next
  case (Cons x xs)
  show ?case
  proof (cases "P x")
    case True
    then show ?thesis using Cons.prems by (simp add: splice1_def)
  next
    case False
    then have f: "find P xs = Some r" using Cons.prems by simp
    then have pr: "P r" by (auto simp: find_Some_iff)
    from Cons.IH[OF f] have ih: "0 \<le> findIndex P xs" "xs ! nat (findIndex P xs) = r"
      "splice1 (nat (findIndex P xs)) xs = remove1 r xs" by auto
    have ne: "x \<noteq> r" using False pr by auto
    have n: "nat (findIndex P xs + 1) = Suc (nat (findIndex P xs))" using ih(1) by simp
    show ?thesis using False ih ne n by (simp add: Let_def splice1_def)
  qed
qed

lemma remove1_ids:
  "distinct (map id' rs) \<Longrightarrow> r \<in> set rs \<Longrightarrow> id' r \<notin> id' ` set (remove1 r rs)"
proof (induction rs)
  case (Cons x xs)
  then show ?case by (auto simp: image_iff dest: notin_set_remove1[THEN notE, rotated])
qed simp

subsection \<open>Delete\<close>

lemma delete_missing:
  assumes st: "store cfg fs = Some rs" and no: "req_id \<notin> id' ` set rs"
  shows "delete_file cfg req_id fs = (json_response 404 (JsonError ''Not found''), fs)"
proof -
  obtain v where v: "loadMeta cfg fs = Inr (v, fs)" "the_records v = Inr rs"
    using store_load[OF st] by blast
  have "findIndex (\<lambda>f. id' f = req_id) rs = - 1" using no by (auto simp: findIndex_none)
  then show ?thesis using v by (simp add: delete_file_def)
qed

lemma delete_found:
  assumes st: "store cfg fs = Some rs" and r: "getFileInfoById req_id rs = Some r"
    and nd: "fs (path_join (UPLOAD_DIR cfg) (storedName r)) \<noteq> Some Directory"
  shows "delete_file cfg req_id fs =
           (json_response 200 JsonOk,
            (fs(path_join (UPLOAD_DIR cfg) (storedName r) := None))
              (META_PATH cfg \<mapsto> File (JSON_stringify ''  '' (records_json (remove1 r rs)))))"
proof -
  let ?abs = "path_join (UPLOAD_DIR cfg) (storedName r)"
  obtain v where v: "loadMeta cfg fs = Inr (v, fs)" "the_records v = Inr rs"
    using store_load[OF st] by blast
  obtain raw where raw: "fs (META_PATH cfg) = Some (File raw)" using store_file[OF st] by blast
  have ix: "0 \<le> findIndex (\<lambda>f. id' f = req_id) rs"
    "rs ! nat (findIndex (\<lambda>f. id' f = req_id) rs) = r"
    "splice1 (nat (findIndex (\<lambda>f. id' f = req_id) rs)) rs = remove1 r rs"
    using findIndex_find[of "\<lambda>f. id' f = req_id" rs r] r by (auto simp: getFileInfoById_def)
  have ne: "findIndex (\<lambda>f. id' f = req_id) rs \<noteq> - 1" using ix(1) by simp
  have un: "(if existsSync fs ?abs then unlink fs ?abs else Inr fs) = Inr (fs(?abs := None))"
    using nd by (auto simp: existsSync_def unlink_def split: option.splits node.splits)
  have "(fs(?abs := None)) (META_PATH cfg) \<noteq> Some Directory" using raw by auto
  then have sv: "saveMeta cfg (records_json (remove1 r rs)) (fs(?abs := None)) =
      Inr ((fs(?abs := None))(META_PATH cfg \<mapsto> File (JSON_stringify ''  '' (records_json (remove1 r rs)))))"
    by (rule saveMeta_ok)
  show ?thesis using v ne ix un sv by (simp add: delete_file_def Let_def)
qed

lemma delete_unlink_error:
  assumes st: "store cfg fs = Some rs" and r: "getFileInfoById req_id rs = Some r"
    and ex: "existsSync fs (path_join (UPLOAD_DIR cfg) (storedName r))"
    and un: "unlink fs (path_join (UPLOAD_DIR cfg) (storedName r)) = Inl e"
  shows "delete_file cfg req_id fs = (json_response 500 (JsonError ''Failed to delete''), fs)"
proof -
  obtain v where v: "loadMeta cfg fs = Inr (v, fs)" "the_records v = Inr rs"
    using store_load[OF st] by blast
  have ix: "0 \<le> findIndex (\<lambda>f. id' f = req_id) rs"
    "rs ! nat (findIndex (\<lambda>f. id' f = req_id) rs) = r"
    using findIndex_find[of "\<lambda>f. id' f = req_id" rs r] r by (auto simp: getFileInfoById_def)
  have ne: "findIndex (\<lambda>f. id' f = req_id) rs \<noteq> - 1" using ix(1) by simp
  show ?thesis using v ne ix ex un by (simp add: delete_file_def Let_def)
qed

lemma example_store: "store example_cfg example_disk = Some [example_record ''a'' ''t1'']"
  using store_saved[of example_cfg "[''uploads/a.txt'' \<mapsto> File ''abc'']" "[example_record ''a'' ''t1'']"]
  by (simp add: example_meta_path example_disk_def fun_upd_twist)

lemma example_store_dir: "store example_cfg example_disk_dir = Some [example_record ''a'' ''t1'']"
  using store_saved[of example_cfg "[''uploads/a.txt'' \<mapsto> Directory]" "[example_record ''a'' ''t1'']"]
  by (simp add: example_meta_path example_disk_dir_def fun_upd_twist)

lemma example_find: "getFileInfoById ''a'' [example_record ''a'' ''t1''] = Some (example_record ''a'' ''t1'')"
  by (simp add: getFileInfoById_def example_record_def)

lemma example_abs: "path_join (UPLOAD_DIR example_cfg) (storedName (example_record ''a'' t)) = ''uploads/a.txt''"
  by (simp add: path_join_def example_cfg_def example_record_def)

text \<open>
  Claim C4. On a store with the records \<open>rs\<close>: when no record has the identifier, the
  delete route answers 404 and leaves the disk as it is. When a record \<open>r\<close> has it and its
  backing path holds a regular file or nothing, the route answers 200, the backing path
  is unlinked, and the document is rewritten without \<open>r\<close>; the file is then gone, and,
  identifiers being unique, a second delete answers 404 and changes nothing.
\<close>

theorem delete_behaviour:
  assumes st: "store cfg fs = Some rs"
  shows "(req_id \<notin> id' ` set rs \<longrightarrow>
            delete_file cfg req_id fs = (json_response 404 (JsonError ''Not found''), fs))
       \<and> (\<forall>r. getFileInfoById req_id rs = Some r \<longrightarrow>
              (fs (path_join (UPLOAD_DIR cfg) (storedName r)) = None
               \<or> (\<exists>bytes. fs (path_join (UPLOAD_DIR cfg) (storedName r)) = Some (File bytes))) \<longrightarrow>
              (\<exists>fs'. delete_file cfg req_id fs = (json_response 200 JsonOk, fs')
                 \<and> fs' = (fs(path_join (UPLOAD_DIR cfg) (storedName r) := None))
                            (META_PATH cfg \<mapsto> File (JSON_stringify ''  '' (records_json (remove1 r rs))))
                 \<and> store cfg fs' = Some (remove1 r rs)
                 \<and> (path_join (UPLOAD_DIR cfg) (storedName r) \<noteq> META_PATH cfg \<longrightarrow>
                      \<not> existsSync fs' (path_join (UPLOAD_DIR cfg) (storedName r)))
                 \<and> (distinct (map id' rs) \<longrightarrow>
                      delete_file cfg req_id fs' = (json_response 404 (JsonError ''Not found''), fs'))))"
proof (intro conjI allI impI)
  assume "req_id \<notin> id' ` set rs"
  then show "delete_file cfg req_id fs = (json_response 404 (JsonError ''Not found''), fs)"
    by (rule delete_missing[OF st])
next
  fix r :: FileRecord
  let ?abs = "path_join (UPLOAD_DIR cfg) (storedName r)"
  let ?fs' = "(fs(?abs := None))(META_PATH cfg \<mapsto> File (JSON_stringify ''  '' (records_json (remove1 r rs))))"
  assume r: "getFileInfoById req_id rs = Some r"
    and f: "fs ?abs = None \<or> (\<exists>bytes. fs ?abs = Some (File bytes))"
  have nd: "fs ?abs \<noteq> Some Directory" using f by auto
  have d: "delete_file cfg req_id fs = (json_response 200 JsonOk, ?fs')"
    by (rule delete_found[OF st r nd])
  have s: "store cfg ?fs' = Some (remove1 r rs)" by (rule store_saved)
  have again: "delete_file cfg req_id ?fs' = (json_response 404 (JsonError ''Not found''), ?fs')"
    if "distinct (map id' rs)"
  proof (rule delete_missing[OF s])
    show "req_id \<notin> id' ` set (remove1 r rs)"
      using remove1_ids[OF that, of r] find_some_id[OF r] by simp
  qed
  show "\<exists>fs'. delete_file cfg req_id fs = (json_response 200 JsonOk, fs')
          \<and> fs' = ?fs' \<and> store cfg fs' = Some (remove1 r rs)
          \<and> (?abs \<noteq> META_PATH cfg \<longrightarrow> \<not> existsSync fs' ?abs)
          \<and> (distinct (map id' rs) \<longrightarrow>
                delete_file cfg req_id fs' = (json_response 404 (JsonError ''Not found''), fs'))"
    using d s again by (auto simp: existsSync_def)
qed

theorem delete_behaviour_witness:
  "store example_cfg example_disk = Some [example_record ''a'' ''t1'']
   \<and> delete_file example_cfg ''zz'' example_disk = (json_response 404 (JsonError ''Not found''), example_disk)
   \<and> fst (delete_file example_cfg ''a'' example_disk) = json_response 200 JsonOk
   \<and> store example_cfg (snd (delete_file example_cfg ''a'' example_disk)) = Some []
   \<and> \<not> existsSync (snd (delete_file example_cfg ''a'' example_disk)) ''uploads/a.txt''
   \<and> fst (delete_file example_cfg ''a'' (snd (delete_file example_cfg ''a'' example_disk)))
       = json_response 404 (JsonError ''Not found'')"
proof -
  have f: "example_disk ''uploads/a.txt'' = Some (File ''abc'')" by (simp add: example_disk_def)
  have z: "''zz'' \<notin> id' ` set [example_record ''a'' ''t1'']" by (simp add: example_record_def)
  have d: "distinct (map id' [example_record ''a'' ''t1''])" by simp
  have m: "''uploads/a.txt'' \<noteq> META_PATH example_cfg" by (simp add: example_meta_path)
  show ?thesis
    using delete_behaviour[OF example_store, of "''zz''"] z
          delete_behaviour[OF example_store, of "''a''", THEN conjunct2, rule_format, OF example_find]
          f d m
    by (auto simp: example_abs example_store)
qed

text \<open>
  Claim C9. When the record exists and unlinking its backing path fails, the delete route
  answers 500 and the disk, hence the metadata document, is unchanged: the record is
  removed and the document rewritten only after the unlink has succeeded.
\<close>

theorem delete_unlink_fails:
  assumes st: "store cfg fs = Some rs" and r: "getFileInfoById req_id rs = Some r"
    and ex: "existsSync fs (path_join (UPLOAD_DIR cfg) (storedName r))"
    and un: "unlink fs (path_join (UPLOAD_DIR cfg) (storedName r)) = Inl e"
  shows "delete_file cfg req_id fs = (json_response 500 (JsonError ''Failed to delete''), fs)
         \<and> store cfg (snd (delete_file cfg req_id fs)) = Some rs"
  using delete_unlink_error[OF st r ex un] st by simp

theorem delete_unlink_fails_witness:
  "store example_cfg example_disk_dir = Some [example_record ''a'' ''t1'']
   \<and> existsSync example_disk_dir ''uploads/a.txt''
   \<and> unlink example_disk_dir ''uploads/a.txt'' = Inl (SystemError ''EISDIR'')
   \<and> delete_file example_cfg ''a'' example_disk_dir
        = (json_response 500 (JsonError ''Failed to delete''), example_disk_dir)"
proof -
  have ex: "existsSync example_disk_dir (path_join (UPLOAD_DIR example_cfg) (storedName (example_record ''a'' ''t1'')))"
    by (simp add: example_abs existsSync_def example_disk_dir_def)
  have un: "unlink example_disk_dir (path_join (UPLOAD_DIR example_cfg) (storedName (example_record ''a'' ''t1''))) = Inl (SystemError ''EISDIR'')"
    by (simp add: example_abs unlink_def example_disk_dir_def)
  show ?thesis
    using delete_unlink_fails[OF example_store_dir example_find ex un] ex un example_store_dir
    by (simp add: example_abs)
qed

subsection \<open>Download\<close>

lemma download_missing:
  assumes st: "store cfg fs = Some rs" and no: "req_id \<notin> id' ` set rs"
  shows "download cfg req_id fs = (json_response 404 (JsonError ''Not found''), fs)"
proof -
  obtain v where v: "loadMeta cfg fs = Inr (v, fs)" "the_records v = Inr rs"
    using store_load[OF st] by blast
  have "getFileInfoById req_id rs = None" using no by (simp add: find_none_ids)
  then show ?thesis using v by (simp add: download_def)
qed

lemma percent_encode_chars:
  "c \<in> set (percent_encode b) \<Longrightarrow> c = CHR ''%'' \<or> c \<in> set upper_hex_chars"
proof -
  have h: "k < 16 \<Longrightarrow> upper_hex_chars ! k \<in> set upper_hex_chars" for k
    by (rule nth_mem) (simp add: upper_hex_chars_def)
  have "(of_char b :: nat) div 16 < 16" by (simp add: less_mult_imp_div_less)
  moreover have "(of_char b :: nat) mod 16 < 16" by simp
  ultimately show "c \<in> set (percent_encode b) \<Longrightarrow> c = CHR ''%'' \<or> c \<in> set upper_hex_chars"
    using h by (auto simp: percent_encode_def)
qed

lemma encodeURIComponent_chars:
  "c \<in> set (encodeURIComponent s) \<Longrightarrow> uri_unreserved c \<or> c = CHR ''%'' \<or> c \<in> set upper_hex_chars"
  by (auto simp: encodeURIComponent_def dest: percent_encode_chars split: if_splits)

lemma encodeURIComponent_no_quote: "CHR 0x22 \<notin> set (encodeURIComponent s)"
  using encodeURIComponent_chars[of "CHR 0x22" s]
  by (auto simp: uri_unreserved_def upper_hex_chars_def is_letter_def is_digit_def
                 lower_letters_def upper_letters_def digit_chars_def)

lemma upper_hex_nth: "k < 16 \<Longrightarrow> hex_val (upper_hex_chars ! k) = Some k"
proof -
  assume "k < 16"
  then have "k \<in> {0,1,2,3,4,5,6,7,8,9,10,11,12,13,14,15}" by (simp, arith)
  then show ?thesis by (auto simp: hex_val_def upper_hex_chars_def is_digit_def digit_chars_def)
qed

lemma unreserved_not_percent: "uri_unreserved c \<Longrightarrow> c \<noteq> CHR ''%''"
  by (auto simp: uri_unreserved_def is_letter_def is_digit_def lower_letters_def upper_letters_def
        digit_chars_def)

lemma percent_decode_encode: "percent_decode (percent_encode c @ s) = map_option ((#) c) (percent_decode s)"
proof -
  let ?n = "of_char c :: nat"
  have d: "?n div 16 < 16" "?n mod 16 < 16" by (simp_all add: less_mult_imp_div_less)
  have "char_of (16 * (?n div 16) + ?n mod 16) = c" by simp
  then show ?thesis using upper_hex_nth[OF d(1)] upper_hex_nth[OF d(2)]
    by (simp add: percent_encode_def)
qed

lemma percent_decode_encodeURIComponent: "percent_decode (encodeURIComponent s) = Some s"
proof (induction s)
  case Nil
  then show ?case by (simp add: encodeURIComponent_def)
next
  case (Cons c s)
  have e: "encodeURIComponent (c # s) = (if uri_unreserved c then [c] else percent_encode c) @ encodeURIComponent s"
    by (simp add: encodeURIComponent_def)
  show ?case
  proof (cases "uri_unreserved c")
    case True
    then show ?thesis using Cons unreserved_not_percent[OF True] by (simp add: e)
  next
    case False
    then show ?thesis using Cons by (simp only: e if_False percent_decode_encode) simp
  qed
qed

lemma encodeURIComponent_explicit:
  "encodeURIComponent s =
     concat (map (\<lambda>c. if c \<in> set ''ABCDEFGHIJKLMNOPQRSTUVWXYZabcdefghijklmnopqrstuvwxyz0123456789-_.!~*()''
                          \<or> c = CHR 0x27
                       then [c]
                       else [CHR ''%'', ''0123456789ABCDEF'' ! (of_char c div 16),
                             ''0123456789ABCDEF'' ! (of_char c mod 16)]) s)"
proof -
  have "uri_unreserved c = (c \<in> set ''ABCDEFGHIJKLMNOPQRSTUVWXYZabcdefghijklmnopqrstuvwxyz0123456789-_.!~*()''
                          \<or> c = CHR 0x27)" for c
    by (auto simp: uri_unreserved_def is_letter_def is_digit_def lower_letters_def upper_letters_def
          digit_chars_def)
  then show ?thesis
    unfolding encodeURIComponent_def percent_encode_def upper_hex_chars_def by (simp only:)
qed

lemma encodeURIComponent_alphabet:
  "\<forall>c\<in>set (encodeURIComponent s).
      c \<in> set ''ABCDEFGHIJKLMNOPQRSTUVWXYZabcdefghijklmnopqrstuvwxyz0123456789-_.!~*()%'' \<or> c = CHR 0x27"
proof
  fix c assume "c \<in> set (encodeURIComponent s)"
  then have "uri_unreserved c \<or> c = CHR ''%'' \<or> c \<in> set upper_hex_chars"
    by (rule encodeURIComponent_chars)
  then show "c \<in> set ''ABCDEFGHIJKLMNOPQRSTUVWXYZabcdefghijklmnopqrstuvwxyz0123456789-_.!~*()%'' \<or> c = CHR 0x27"
    by (auto simp: uri_unreserved_def is_letter_def is_digit_def lower_letters_def upper_letters_def
          digit_chars_def upper_hex_chars_def)
qed

text \<open>
  Claim C7. The download route answers 404 when no record has the identifier (in
  particular after the record has been deleted) and 404 when the record exists but
  nothing is at its backing path; when the path holds a regular file it sends the bytes
  with \<^verbatim>\<open>Content-Type\<close> set to the stored mime value and \<^verbatim>\<open>Content-Disposition\<close> set
  to \<^verbatim>\<open>attachment\<close> with the percent-encoded original file name in quotes. The encoded
  name is given byte by byte: a letter, a digit and the marks \<^verbatim>\<open>-_.!~*'()\<close> stand for
  themselves, every other byte is a percent sign and its two upper-case hexadecimal
  digits. Percent-decoding it gives the original name back, and it has no character
  outside that alphabet (no space, no quote, no control character).
\<close>

theorem download_behaviour:
  assumes st: "store cfg fs = Some rs"
  shows "(req_id \<notin> id' ` set rs \<longrightarrow>
            download cfg req_id fs = (json_response 404 (JsonError ''Not found''), fs))
       \<and> (\<forall>r. getFileInfoById req_id rs = Some r \<longrightarrow>
              (fs (path_join (UPLOAD_DIR cfg) (storedName r)) = None \<longrightarrow>
                 download cfg req_id fs = (json_response 404 (JsonError ''Missing file on disk''), fs))
            \<and> (\<forall>bytes. fs (path_join (UPLOAD_DIR cfg) (storedName r)) = Some (File bytes) \<longrightarrow>
                 (\<exists>enc.
                    download cfg req_id fs =
                      (Responds
                         \<lparr>status = 200,
                          headers =
                            [(''Content-Type'', mime r),
                             (''Content-Disposition'',
                              ''attachment; filename='' @ [CHR 0x22] @ enc @ [CHR 0x22])],
                          body = FileStream bytes\<rparr>,
                       fs)
                  \<and> enc = concat (map (\<lambda>c.
                        if c \<in> set ''ABCDEFGHIJKLMNOPQRSTUVWXYZabcdefghijklmnopqrstuvwxyz0123456789-_.!~*()''
                           \<or> c = CHR 0x27
                        then [c]
                        else [CHR ''%'', ''0123456789ABCDEF'' ! (of_char c div 16),
                              ''0123456789ABCDEF'' ! (of_char c mod 16)]) (originalName r))
                  \<and> percent_decode enc = Some (originalName r)
                  \<and> (\<forall>c\<in>set enc.
                        c \<in> set ''ABCDEFGHIJKLMNOPQRSTUVWXYZabcdefghijklmnopqrstuvwxyz0123456789-_.!~*()%''
                        \<or> c = CHR 0x27)))
            \<and> (distinct (map id' rs) \<longrightarrow>
                 fs (path_join (UPLOAD_DIR cfg) (storedName r)) \<noteq> Some Directory \<longrightarrow>
                 fst (delete_file cfg req_id fs) = json_response 200 JsonOk
                 \<and> download cfg req_id (snd (delete_file cfg req_id fs)) =
                     (json_response 404 (JsonError ''Not found''), snd (delete_file cfg req_id fs))))"
proof (intro conjI allI impI)
  assume "req_id \<notin> id' ` set rs"
  then show "download cfg req_id fs = (json_response 404 (JsonError ''Not found''), fs)"
    by (rule download_missing[OF st])
next
  fix r :: FileRecord
  assume r: "getFileInfoById req_id rs = Some r"
  obtain v where v: "loadMeta cfg fs = Inr (v, fs)" "the_records v = Inr rs"
    using store_load[OF st] by blast
  let ?abs = "path_join (UPLOAD_DIR cfg) (storedName r)"
  show "download cfg req_id fs = (json_response 404 (JsonError ''Missing file on disk''), fs)"
    if "fs ?abs = None"
    using v r that by (simp add: download_def existsSync_def)
  show "\<exists>enc.
          download cfg req_id fs =
            (Responds
               \<lparr>status = 200,
                headers =
                  [(''Content-Type'', mime r),
                   (''Content-Disposition'', ''attachment; filename='' @ [CHR 0x22] @ enc @ [CHR 0x22])],
                body = FileStream bytes\<rparr>,
             fs)
        \<and> enc = concat (map (\<lambda>c.
              if c \<in> set ''ABCDEFGHIJKLMNOPQRSTUVWXYZabcdefghijklmnopqrstuvwxyz0123456789-_.!~*()''
                 \<or> c = CHR 0x27
              then [c]
              else [CHR ''%'', ''0123456789ABCDEF'' ! (of_char c div 16),
                    ''0123456789ABCDEF'' ! (of_char c mod 16)]) (originalName r))
        \<and> percent_decode enc = Some (originalName r)
        \<and> (\<forall>c\<in>set enc.
              c \<in> set ''ABCDEFGHIJKLMNOPQRSTUVWXYZabcdefghijklmnopqrstuvwxyz0123456789-_.!~*()%''
              \<or> c = CHR 0x27)"
    if f: "fs ?abs = Some (File bytes)" for bytes
  proof (intro exI[of _ "encodeURIComponent (originalName r)"] conjI)
    show "download cfg req_id fs =
            (Responds
               \<lparr>status = 200,
                headers =
                  [(''Content-Type'', mime r),
                   (''Content-Disposition'',
                    ''attachment; filename='' @ [CHR 0x22] @ encodeURIComponent (originalName r) @ [CHR 0x22])],
                body = FileStream bytes\<rparr>,
             fs)"
      using v r f by (simp add: download_def existsSync_def readFileSync_def content_disposition_def)
    show "encodeURIComponent (originalName r) = concat (map (\<lambda>c.
              if c \<in> set ''ABCDEFGHIJKLMNOPQRSTUVWXYZabcdefghijklmnopqrstuvwxyz0123456789-_.!~*()''
                 \<or> c = CHR 0x27
              then [c]
              else [CHR ''%'', ''0123456789ABCDEF'' ! (of_char c div 16),
                    ''0123456789ABCDEF'' ! (of_char c mod 16)]) (originalName r))"
      by (rule encodeURIComponent_explicit)
    show "percent_decode (encodeURIComponent (originalName r)) = Some (originalName r)"
      by (rule percent_decode_encodeURIComponent)
    show "\<forall>c\<in>set (encodeURIComponent (originalName r)).
              c \<in> set ''ABCDEFGHIJKLMNOPQRSTUVWXYZabcdefghijklmnopqrstuvwxyz0123456789-_.!~*()%''
              \<or> c = CHR 0x27"
      by (rule encodeURIComponent_alphabet)
  qed
  assume d: "distinct (map id' rs)" and nd: "fs ?abs \<noteq> Some Directory"
  let ?fs' = "(fs(?abs := None))(META_PATH cfg \<mapsto> File (JSON_stringify ''  '' (records_json (remove1 r rs))))"
  have del: "delete_file cfg req_id fs = (json_response 200 JsonOk, ?fs')"
    by (rule delete_found[OF st r nd])
  have s: "store cfg ?fs' = Some (remove1 r rs)" by (rule store_saved)
  have "req_id \<notin> id' ` set (remove1 r rs)"
    using remove1_ids[OF d, of r] find_some_id[OF r] by simp
  then have "download cfg req_id ?fs' = (json_response 404 (JsonError ''Not found''), ?fs')"
    by (rule download_missing[OF s])
  then show "fst (delete_file cfg req_id fs) = json_response 200 JsonOk"
    and "download cfg req_id (snd (delete_file cfg req_id fs)) =
           (json_response 404 (JsonError ''Not found''), snd (delete_file cfg req_id fs))"
    using del by simp_all
qed

lemma example_store_enc: "store example_cfg example_disk_enc = Some [example_record_enc]"
  using store_saved[of example_cfg "[''uploads/e.txt'' \<mapsto> File ''abc'']" "[example_record_enc]"]
  by (simp add: example_meta_path example_disk_enc_def fun_upd_twist)

lemma example_encoded_explicit:
  "concat (map (\<lambda>c.
      if c \<in> set ''ABCDEFGHIJKLMNOPQRSTUVWXYZabcdefghijklmnopqrstuvwxyz0123456789-_.!~*()''
         \<or> c = CHR 0x27
      then [c]
      else [CHR ''%'', ''0123456789ABCDEF'' ! (of_char c div 16),
            ''0123456789ABCDEF'' ! (of_char c mod 16)])
     (''my notes'' @ [CHR 0x22, CHR 0xC3, CHR 0xA9] @ ''.txt'')) = ''my%20notes%22%C3%A9.txt''"
  by code_simp

theorem download_behaviour_witness:
  "download example_cfg ''zz'' example_disk = (json_response 404 (JsonError ''Not found''), example_disk)
   \<and> download example_cfg ''a'' example_disk =
        (Responds \<lparr>status = 200,
                   headers = [(''Content-Type'', ''text/plain''),
                              (''Content-Disposition'', ''attachment; filename='' @ [CHR 0x22] @ ''notes.txt'' @ [CHR 0x22])],
                   body = FileStream ''abc''\<rparr>, example_disk)
   \<and> download example_cfg ''e'' example_disk_enc =
        (Responds \<lparr>status = 200,
                   headers = [(''Content-Type'', ''text/plain''),
                              (''Content-Disposition'',
                               ''attachment; filename='' @ [CHR 0x22] @ ''my%20notes%22%C3%A9.txt'' @ [CHR 0x22])],
                   body = FileStream ''abc''\<rparr>, example_disk_enc)
   \<and> download example_cfg ''a'' (example_disk(''uploads/a.txt'' := None)) =
        (json_response 404 (JsonError ''Missing file on disk''), example_disk(''uploads/a.txt'' := None))
   \<and> fst (download example_cfg ''a'' (snd (delete_file example_cfg ''a'' example_disk)))
        = json_response 404 (JsonError ''Not found'')"
proof -
  have f: "example_disk ''uploads/a.txt'' = Some (File ''abc'')" by (simp add: example_disk_def)
  have z: "''zz'' \<notin> id' ` set [example_record ''a'' ''t1'']" by (simp add: example_record_def)
  have d: "distinct (map id' [example_record ''a'' ''t1''])" by simp
  have s2: "store example_cfg (example_disk(''uploads/a.txt'' := None)) = Some [example_record ''a'' ''t1'']"
    using example_store by (simp add: store_def readFileSync_def example_meta_path)
  have m: "mime (example_record ''a'' ''t1'') = ''text/plain''" "originalName (example_record ''a'' ''t1'') = ''notes.txt''"
    by (simp_all add: example_record_def)
  have plain: "concat (map (\<lambda>c.
      if c \<in> set ''ABCDEFGHIJKLMNOPQRSTUVWXYZabcdefghijklmnopqrstuvwxyz0123456789-_.!~*()''
         \<or> c = CHR 0x27
      then [c]
      else [CHR ''%'', ''0123456789ABCDEF'' ! (of_char c div 16),
            ''0123456789ABCDEF'' ! (of_char c mod 16)]) ''notes.txt'') = ''notes.txt''"
    by code_simp
  have fe: "getFileInfoById ''e'' [example_record_enc] = Some example_record_enc"
    by (simp add: getFileInfoById_def example_record_enc_def)
  have pe: "example_disk_enc (path_join (UPLOAD_DIR example_cfg) (storedName example_record_enc)) = Some (File ''abc'')"
    by (simp add: example_disk_enc_def example_record_enc_def example_cfg_def path_join_def)
  have me: "mime example_record_enc = ''text/plain''"
    "originalName example_record_enc = ''my notes'' @ [CHR 0x22, CHR 0xC3, CHR 0xA9] @ ''.txt''"
    by (simp_all add: example_record_enc_def)
  have enc: "download example_cfg ''e'' example_disk_enc =
        (Responds \<lparr>status = 200,
                   headers = [(''Content-Type'', ''text/plain''),
                              (''Content-Disposition'',
                               ''attachment; filename='' @ [CHR 0x22] @ ''my%20notes%22%C3%A9.txt'' @ [CHR 0x22])],
                   body = FileStream ''abc''\<rparr>, example_disk_enc)"
    using download_behaviour[OF example_store_enc, of "''e''", THEN conjunct2, rule_format, OF fe,
            THEN conjunct2, THEN conjunct1, rule_format, OF pe]
    unfolding me example_encoded_explicit by auto
  have rest: "download example_cfg ''zz'' example_disk = (json_response 404 (JsonError ''Not found''), example_disk)
   \<and> download example_cfg ''a'' example_disk =
        (Responds \<lparr>status = 200,
                   headers = [(''Content-Type'', ''text/plain''),
                              (''Content-Disposition'', ''attachment; filename='' @ [CHR 0x22] @ ''notes.txt'' @ [CHR 0x22])],
                   body = FileStream ''abc''\<rparr>, example_disk)
   \<and> download example_cfg ''a'' (example_disk(''uploads/a.txt'' := None)) =
        (json_response 404 (JsonError ''Missing file on disk''), example_disk(''uploads/a.txt'' := None))
   \<and> fst (download example_cfg ''a'' (snd (delete_file example_cfg ''a'' example_disk)))
        = json_response 404 (JsonError ''Not found'')"
    using download_behaviour[OF example_store, of "''zz''"] z
          download_behaviour[OF example_store, of "''a''", THEN conjunct2, rule_format, OF example_find]
          download_behaviour[OF s2, of "''a''", THEN conjunct2, rule_format, OF example_find]
          f d m plain
    by (auto simp: example_abs)
  show ?thesis using enc rest by simp
qed

subsection \<open>Listing\<close>

lemma Array_sort_sort_key:
  "Array_sort (\<lambda>a b. key b - key a) xs = sort_key (\<lambda>r. - key r) xs" for key :: "'a \<Rightarrow> int"
proof -
  have "insert_sorted (\<lambda>a b. key b - key a) x ys = insort_key (\<lambda>r. - key r) x ys" for x ys
    by (induction ys) auto
  then have "insert_sorted (\<lambda>a b. key b - key a) = insort_key (\<lambda>r. - key r)" by (intro ext)
  then show ?thesis by (simp add: Array_sort_def sort_key_def)
qed

text \<open>
  Claim C5. The listing route returns all records of the store, each as often as the
  store holds it, ordered by the date of \<^verbatim>\<open>uploadedAt\<close> descending; for three records
  with dates T1 < T2 < T3, in whatever order the store holds them, the listing is
  T3, T2, T1.
\<close>

theorem listing_newest_first:
  assumes st: "store cfg fs = Some rs"
  shows "\<exists>out. get_files Date cfg fs = (json_response 200 (JsonFiles out), fs)
           \<and> mset out = mset rs
           \<and> sorted_wrt (\<lambda>a b. Date (uploadedAt b) \<le> Date (uploadedAt a)) out
           \<and> (\<forall>r1 r2 r3. mset rs = {#r1, r2, r3#} \<longrightarrow>
                 Date (uploadedAt r1) < Date (uploadedAt r2) \<longrightarrow>
                 Date (uploadedAt r2) < Date (uploadedAt r3) \<longrightarrow> out = [r3, r2, r1])"
proof -
  let ?key = "\<lambda>r. - Date (uploadedAt r)"
  let ?out = "sort_key ?key rs"
  obtain v where v: "loadMeta cfg fs = Inr (v, fs)" "the_records v = Inr rs"
    using store_load[OF st] by blast
  have g: "get_files Date cfg fs = (json_response 200 (JsonFiles ?out), fs)"
    using v Array_sort_sort_key[of "\<lambda>r. Date (uploadedAt r)" rs] by (simp add: get_files_def)
  have "sorted (map ?key ?out)" by simp
  then have so: "sorted_wrt (\<lambda>a b. Date (uploadedAt b) \<le> Date (uploadedAt a)) ?out"
    by (simp add: sorted_map)
  have three: "?out = [r3, r2, r1]"
    if m: "mset rs = {#r1, r2, r3#}" and lt: "Date (uploadedAt r1) < Date (uploadedAt r2)"
      "Date (uploadedAt r2) < Date (uploadedAt r3)" for r1 r2 r3
  proof (rule sort_key_inj_key_eq)
    show "mset rs = mset [r3, r2, r1]" using m by (simp add: add_mset_commute)
    have "set rs = {r1, r2, r3}" using m by (metis mset_eq_setD set_mset_add_mset_insert set_mset_empty set_mset_mset)
    then show "inj_on ?key (set rs)" using lt by (auto simp: inj_on_def)
    show "sorted (map ?key [r3, r2, r1])" using lt by simp
  qed
  show ?thesis using g so three by (intro exI[of _ ?out]) auto
qed

subsection \<open>Stored names\<close>

lemma uuid_shaped_chars:
  assumes "uuid_shaped u"
  shows "u \<noteq> []" "CHR ''.'' \<notin> set u" "CHR ''/'' \<notin> set u"
proof -
  have l: "length u = 36" using assms unfolding uuid_shaped_def by (rule conjunct1)
  have c: "\<forall>c\<in>set u. c = CHR ''-'' \<or> c \<in> set hex_chars"
    using assms unfolding uuid_shaped_def by (rule conjunct2)
  show "u \<noteq> []" using l by (cases u) simp_all
  show "CHR ''.'' \<notin> set u"
  proof
    assume "CHR ''.'' \<in> set u"
    with c have "CHR ''.'' = CHR ''-'' \<or> CHR ''.'' \<in> set hex_chars" by (rule bspec)
    then show False by (simp add: hex_chars_def)
  qed
  show "CHR ''/'' \<notin> set u"
  proof
    assume "CHR ''/'' \<in> set u"
    with c have "CHR ''/'' = CHR ''-'' \<or> CHR ''/'' \<in> set hex_chars" by (rule bspec)
    then show False by (simp add: hex_chars_def)
  qed
qed

lemma component_ext_shape:
  "component_ext b = [] \<or> (\<exists>t. component_ext b = CHR ''.'' # t \<and> CHR ''.'' \<notin> set t)"
proof -
  let ?t = "rev (takeWhile (\<lambda>c. c \<noteq> CHR ''.'') (rev b))"
  have "CHR ''.'' \<notin> set (takeWhile (\<lambda>c. c \<noteq> CHR ''.'') (rev b))"
    using set_takeWhileD[of "CHR ''.''" "\<lambda>c. c \<noteq> CHR ''.''" "rev b"] by blast
  then have n: "CHR ''.'' \<notin> set ?t" by simp
  have "component_ext b = [] \<or> component_ext b = CHR ''.'' # ?t"
    by (simp add: component_ext_def Let_def)
  then show ?thesis using n by blast
qed

lemma safe_ext_shape:
  "safe_ext (path_extname n) = [] \<or>
   (\<exists>t. safe_ext (path_extname n) = CHR ''.'' # t \<and> CHR ''.'' \<notin> set t \<and> CHR ''/'' \<notin> set t)"
proof -
  have s: "safe_ext_char (CHR ''.'')" "\<not> safe_ext_char (CHR ''/'')"
    by (auto simp: safe_ext_char_def is_letter_def is_digit_def lower_letters_def upper_letters_def digit_chars_def)
  from component_ext_shape[of "last_component n"] show ?thesis
  proof
    assume "component_ext (last_component n) = []"
    then show ?thesis by (simp add: path_extname_def safe_ext_def)
  next
    assume "\<exists>t. component_ext (last_component n) = CHR ''.'' # t \<and> CHR ''.'' \<notin> set t"
    then obtain t where t: "component_ext (last_component n) = CHR ''.'' # t" "CHR ''.'' \<notin> set t" by blast
    have "safe_ext (path_extname n) = CHR ''.'' # filter safe_ext_char t"
      using t(1) s(1) by (simp add: path_extname_def safe_ext_def)
    moreover have "CHR ''.'' \<notin> set (filter safe_ext_char t)" using t(2) by simp
    moreover have "CHR ''/'' \<notin> set (filter safe_ext_char t)" using s(2) by auto
    ultimately show ?thesis by blast
  qed
qed

lemma last_component_plain: "CHR ''/'' \<notin> set p \<Longrightarrow> last_component p = p"
proof -
  assume a: "CHR ''/'' \<notin> set p"
  have d: "dropWhile (\<lambda>c. c = CHR ''/'') (rev p) = rev p"
    using a by (cases "rev p") (auto simp: in_set_conv_decomp)
  have t: "takeWhile (\<lambda>c. c \<noteq> CHR ''/'') (rev p) = rev p"
    using a by (auto simp: takeWhile_eq_all_conv)
  show ?thesis unfolding last_component_def by (simp only: d t rev_rev_ident)
qed

lemma component_ext_no_dot: "CHR ''.'' \<notin> set b \<Longrightarrow> component_ext b = []"
  by (simp add: component_ext_def)

lemma component_ext_stem:
  assumes u: "u \<noteq> []" "CHR ''.'' \<notin> set u" and t: "CHR ''.'' \<notin> set t"
  shows "component_ext (u @ CHR ''.'' # t) = CHR ''.'' # t"
proof -
  have tw: "takeWhile (\<lambda>c. c \<noteq> CHR ''.'') (rev t @ CHR ''.'' # rev u) = rev t"
    using t by (subst takeWhile_append2) auto
  have dw: "dropWhile (\<lambda>c. c \<noteq> CHR ''.'') (rev t @ CHR ''.'' # rev u) = CHR ''.'' # rev u"
    using t by (subst dropWhile_append2) auto
  have ne: "u \<noteq> ''.''" using u(2) by auto
  show ?thesis using tw dw u(1) ne by (simp add: component_ext_def Let_def)
qed

lemma stored_name_split:
  assumes "uuid_shaped u"
  shows "path_parse_name (storage_filename u n) = u"
    and "path_extname (storage_filename u n) = safe_ext (path_extname n)"
proof -
  note u = uuid_shaped_chars[OF assms]
  from safe_ext_shape[of n]
  have "path_parse_name (u @ safe_ext (path_extname n)) = u
        \<and> path_extname (u @ safe_ext (path_extname n)) = safe_ext (path_extname n)"
  proof
    assume e: "safe_ext (path_extname n) = []"
    then show ?thesis using u
      by (simp add: path_parse_name_def path_extname_def[of u] last_component_plain component_ext_no_dot)
  next
    assume "\<exists>t. safe_ext (path_extname n) = CHR ''.'' # t \<and> CHR ''.'' \<notin> set t \<and> CHR ''/'' \<notin> set t"
    then obtain t where t: "safe_ext (path_extname n) = CHR ''.'' # t" "CHR ''.'' \<notin> set t" "CHR ''/'' \<notin> set t"
      by blast
    have lc: "last_component (u @ CHR ''.'' # t) = u @ CHR ''.'' # t"
      using u(3) t(3) by (intro last_component_plain) auto
    have ce: "component_ext (u @ CHR ''.'' # t) = CHR ''.'' # t"
      using u(1,2) t(2) by (rule component_ext_stem)
    show ?thesis
      unfolding t(1) by (simp add: path_parse_name_def path_extname_def[of "u @ CHR ''.'' # t"] lc ce)
  qed
  then show "path_parse_name (storage_filename u n) = u"
    and "path_extname (storage_filename u n) = safe_ext (path_extname n)"
    by (simp_all add: storage_filename_def)
qed

lemma stored_name_not_meta:
  assumes "uuid_shaped u"
  shows "path_join d (storage_filename u n) \<noteq> path_join d ''metadata.json''"
proof
  assume "path_join d (storage_filename u n) = path_join d ''metadata.json''"
  then have "storage_filename u n = ''metadata.json''" by (simp add: path_join_def)
  then have "length (storage_filename u n) = length ''metadata.json''" by (rule arg_cong)
  then show False using assms by (simp add: storage_filename_def uuid_shaped_def)
qed

lemma stored_name_inj:
  assumes "uuid_shaped u" "uuid_shaped u'" "storage_filename u n = storage_filename u' n'"
  shows "u = u'"
proof -
  have l: "length u = length u'" using assms(1,2) by (simp add: uuid_shaped_def)
  have "u @ safe_ext (path_extname n) = u' @ safe_ext (path_extname n')"
    using assms(3) by (simp add: storage_filename_def)
  then show ?thesis using l by simp
qed

subsection \<open>The records of a document\<close>

lemma json_record_inverse: "json_record j = Some r \<Longrightarrow> j = record_json r"
proof -
  assume a: "json_record j = Some r"
  then obtain kvs where j: "j = JObj kvs" by (cases j) (auto simp: json_record_def)
  have k: "map fst kvs = [''id'', ''originalName'', ''storedName'', ''extension'', ''size'', ''mime'', ''uploadedAt'']"
    using a j by (auto simp: json_record_def split: if_splits)
  then obtain v1 v2 v3 v4 v5 v6 v7 where kvs: "kvs = [(''id'', v1), (''originalName'', v2), (''storedName'', v3),
       (''extension'', v4), (''size'', v5), (''mime'', v6), (''uploadedAt'', v7)]"
    by (auto simp: map_eq_Cons_conv)
  have c: "(case [v1, v2, v3, v4, v5, v6, v7] of
              [JStr a, JStr b, JStr c, JStr d, JNum n, JStr e, JStr f] \<Rightarrow>
                Some \<lparr>id' = a, originalName = b, storedName = c, extension = d, size' = n,
                      mime = e, uploadedAt = f\<rparr>
            | _ \<Rightarrow> None) = Some r"
    using a unfolding j kvs by (simp add: json_record_def)
  obtain a1 where v1: "v1 = JStr a1" using c by (cases v1) simp_all
  obtain a2 where v2: "v2 = JStr a2" using c unfolding v1 by (cases v2) simp_all
  obtain a3 where v3: "v3 = JStr a3" using c unfolding v1 v2 by (cases v3) simp_all
  obtain a4 where v4: "v4 = JStr a4" using c unfolding v1 v2 v3 by (cases v4) simp_all
  obtain n where v5: "v5 = JNum n" using c unfolding v1 v2 v3 v4 by (cases v5) simp_all
  obtain a6 where v6: "v6 = JStr a6" using c unfolding v1 v2 v3 v4 v5 by (cases v6) simp_all
  obtain a7 where v7: "v7 = JStr a7" using c unfolding v1 v2 v3 v4 v5 v6 by (cases v7) simp_all
  have "r = \<lparr>id' = a1, originalName = a2, storedName = a3, extension = a4, size' = n, mime = a6, uploadedAt = a7\<rparr>"
    using c unfolding v1 v2 v3 v4 v5 v6 v7 by simp
  then show ?thesis unfolding j kvs v1 v2 v3 v4 v5 v6 v7 by (simp add: record_json_def)
qed

lemma those_map_inverse:
  "those (map f xs) = Some ys \<Longrightarrow> (\<And>x y. f x = Some y \<Longrightarrow> x = g y) \<Longrightarrow> xs = map g ys"
proof (induction xs arbitrary: ys)
  case (Cons x xs)
  then show ?case by (auto split: option.splits)
qed simp

lemma records_of_inverse: "records_of v = Some rs \<Longrightarrow> v = records_json rs"
  using those_map_inverse[of json_record _ rs record_json] json_record_inverse
  by (cases v) (auto simp: records_of_def records_json_def)

lemma store_load_json:
  "store cfg fs = Some rs \<Longrightarrow> loadMeta cfg fs = Inr (records_json rs, fs)"
  using store_load[of cfg fs rs] records_of_inverse[of _ rs]
  by (auto simp: the_records_def split: option.splits)

subsection \<open>The upload route function\<close>

lemma upload_loop_saved:
  "upload_loop lookup now files meta saved = Inr (meta', saved')
     \<Longrightarrow> saved' = saved @ map (new_record lookup now) files"
proof (induction files arbitrary: meta saved)
  case (Cons f files)
  then show ?case by (cases meta) (auto simp: Let_def dest!: Cons.IH)
qed simp

lemma upload_loop_array:
  "upload_loop lookup now files (JArr xs) saved =
     Inr (JArr (xs @ map (\<lambda>f. record_json (new_record lookup now f)) files),
          saved @ map (new_record lookup now) files)"
  by (induction files arbitrary: xs saved) (simp_all add: Let_def)

lemma upload_handler_ok:
  assumes st: "store cfg fs = Some rs"
  shows "upload_handler cfg lookup now (Some files) fs =
           (json_response 201 (JsonFiles (map (new_record lookup now) files)),
            fs(META_PATH cfg \<mapsto> File (JSON_stringify ''  ''
                 (records_json (rs @ map (new_record lookup now) files)))))"
proof -
  obtain raw where raw: "fs (META_PATH cfg) = Some (File raw)" using store_file[OF st] by blast
  then have nd: "fs (META_PATH cfg) \<noteq> Some Directory" by simp
  have m: "JArr (map record_json rs @ map (\<lambda>f. record_json (new_record lookup now f)) files)
           = records_json (rs @ map (new_record lookup now) files)"
    by (simp add: records_json_def comp_def)
  show ?thesis
    using store_load_json[OF st] saveMeta_ok[where fs=fs and cfg=cfg, OF nd]
    by (simp add: upload_handler_def upload_try_def upload_loop_array m records_json_def[of rs])
qed

lemma upload_try_codes:
  "upload_try cfg lookup now req_files fs = (Inl e, fs') \<Longrightarrow> err_code e \<noteq> Some ''LIMIT_FILE_SIZE''"
proof -
  have w: "writeFileSync f p c = Inl e \<Longrightarrow> e = SystemError ''EISDIR''" for f p c
    by (auto simp: writeFileSync_def split: option.splits node.splits)
  have l: "loadMeta cfg f = Inl e \<Longrightarrow> e = SystemError ''EISDIR''" for f
    by (auto simp: loadMeta_def dest: w split: sum.splits option.splits)
  have s: "saveMeta cfg v f = Inl e \<Longrightarrow> e = SystemError ''EISDIR''" for v f
    by (auto simp: saveMeta_def dest: w)
  have u: "upload_loop lookup now files meta saved = Inl e \<Longrightarrow> e = TypeError" for files meta saved
  proof (induction files arbitrary: meta saved)
    case (Cons f files)
    then show ?case by (cases meta) (auto simp: Let_def)
  qed simp
  assume "upload_try cfg lookup now req_files fs = (Inl e, fs')"
  then have "e = SystemError ''EISDIR'' \<or> e = TypeError"
    by (auto simp: upload_try_def Let_def dest: l s u split: sum.splits prod.splits)
  then show ?thesis by auto
qed

lemma upload_handler_never_400:
  "upload_handler cfg lookup now req_files fs = (Responds r, fs') \<Longrightarrow> status r \<noteq> 400"
  using upload_try_codes[of cfg lookup now req_files fs]
  by (auto simp: upload_handler_def json_response_def split: prod.splits sum.splits if_splits)

subsection \<open>The multer middleware\<close>

lemma remove_uploaded_other:
  "\<forall>f\<in>set fl. path f \<noteq> q \<Longrightarrow> remove_uploaded fl fs q = fs q"
proof (induction fl arbitrary: fs)
  case (Cons f fl)
  have "(case unlink fs (path f) of Inl e \<Rightarrow> fs | Inr fs1 \<Rightarrow> fs1) q = fs q"
    using Cons.prems by (auto simp: unlink_def split: option.splits node.splits)
  then show ?case using Cons by simp
qed simp

lemma multer_parts_other:
  assumes "\<And>k n. path_join (UPLOAD_DIR cfg) (storage_filename (uuidv4 k) n) \<noteq> q"
  shows "\<forall>f\<in>set uploaded. path f \<noteq> q \<Longrightarrow>
         multer_parts cfg uuidv4 k left ps uploaded fs = (res, fs') \<Longrightarrow> fs' q = fs q"
proof (induction ps arbitrary: k left uploaded fs)
  case Nil
  then show ?case by simp
next
  case (Cons p ps)
  let ?name = "storage_filename (uuidv4 k) (part_filename p)"
  let ?file = "\<lparr>fieldname = part_field p, originalname = part_filename p, mimetype = part_type p,
                 filename = ?name, path = path_join (UPLOAD_DIR cfg) ?name,
                 filesize = min (length (part_data p)) (MAX_FILE_SIZE cfg)\<rparr>"
  have pq: "path_join (UPLOAD_DIR cfg) ?name \<noteq> q" by (rule assms)
  show ?case
  proof (cases "part_filename p = []")
    case True
    then show ?thesis using Cons by simp
  next
    case False
    note nf = False
    show ?thesis
    proof (cases "part_field p \<noteq> ''files'' \<or> left = 0")
      case True
      then show ?thesis using Cons.prems nf by (auto simp: remove_uploaded_other)
    next
      case False
      note ok = False
      show ?thesis
      proof (cases "writeFileSync fs (path_join (UPLOAD_DIR cfg) ?name) (take (MAX_FILE_SIZE cfg) (part_data p))")
        case (Inl e)
        then show ?thesis using Cons.prems nf ok by (auto simp: Let_def remove_uploaded_other)
      next
        case (Inr fs1)
        then have fs1: "fs1 q = fs q" using pq
          by (auto simp: writeFileSync_def split: option.splits node.splits)
        have up: "\<forall>f\<in>set (uploaded @ [?file]). path f \<noteq> q" using Cons.prems(1) pq by simp
        show ?thesis
        proof (cases "MAX_FILE_SIZE cfg < length (part_data p)")
          case True
          then show ?thesis
            using Cons.prems(2) nf ok Inr fs1 remove_uploaded_other[OF up, of fs1]
            by (auto simp: Let_def)
        next
          case False
          then have "multer_parts cfg uuidv4 (Suc k) (left - 1) ps (uploaded @ [?file]) fs1 = (res, fs')"
            using Cons.prems(2) nf ok Inr by (simp add: Let_def)
          from Cons.IH[OF up this] fs1 show ?thesis by simp
        qed
      qed
    qed
  qed
qed

lemma multer_parts_oversize:
  "p \<in> set ps \<Longrightarrow> part_filename p \<noteq> [] \<Longrightarrow> MAX_FILE_SIZE cfg < length (part_data p)
     \<Longrightarrow> \<exists>e fs'. multer_parts cfg uuidv4 k left ps uploaded fs = (Inl e, fs')"
proof (induction ps arbitrary: k left uploaded fs)
  case Nil
  then show ?case by simp
next
  case (Cons a ps)
  show ?case
  proof (cases "a = p")
    case True
    then show ?thesis using Cons.prems by (auto simp: Let_def split: sum.splits)
  next
    case False
    then have "p \<in> set ps" using Cons.prems(1) by simp
    note ih = Cons.IH[OF this Cons.prems(2,3)]
    show ?thesis using ih by (auto simp: Let_def split: sum.splits)
  qed
qed

lemma stored_files_length [simp]: "length (stored_files cfg uuidv4 k ps) = length ps"
  by (induction ps arbitrary: k) simp_all

lemma stored_files_nth:
  "i < length ps \<Longrightarrow> stored_files cfg uuidv4 k ps ! i = stored_file cfg (uuidv4 (k + i)) (ps ! i)"
proof (induction ps arbitrary: k i)
  case (Cons p ps)
  then show ?case by (cases i) simp_all
qed simp

lemma multer_parts_accepts:
  "\<forall>p\<in>set ps. accepted cfg p \<Longrightarrow> length ps \<le> left
   \<Longrightarrow> \<forall>f\<in>set (stored_files cfg uuidv4 k ps). fs (path f) \<noteq> Some Directory
   \<Longrightarrow> \<exists>fs'. multer_parts cfg uuidv4 k left ps uploaded fs
                = (Inr (uploaded @ stored_files cfg uuidv4 k ps), fs')
            \<and> (\<forall>f\<in>set (stored_files cfg uuidv4 k ps). \<exists>bytes. fs' (path f) = Some (File bytes))
            \<and> (\<forall>q. q \<notin> path ` set (stored_files cfg uuidv4 k ps) \<longrightarrow> fs' q = fs q)
            \<and> (\<forall>q bytes. fs q = Some (File bytes) \<longrightarrow> (\<exists>bytes'. fs' q = Some (File bytes')))"
proof (induction ps arbitrary: k left uploaded fs)
  case Nil
  then show ?case by simp
next
  case (Cons p ps)
  let ?file = "stored_file cfg (uuidv4 k) p"
  let ?fs1 = "fs(path ?file \<mapsto> File (part_data p))"
  have acc: "part_field p = ''files''" "part_filename p \<noteq> []" "length (part_data p) \<le> MAX_FILE_SIZE cfg"
    using Cons.prems(1) by (auto simp: accepted_def)
  have left: "left \<noteq> 0" "length ps \<le> left - 1" using Cons.prems(2) by auto
  have nd: "fs (path ?file) \<noteq> Some Directory" using Cons.prems(3) by simp
  have w: "writeFileSync fs (path ?file) (take (MAX_FILE_SIZE cfg) (part_data p)) = Inr ?fs1"
    using nd acc(3) by (auto simp: writeFileSync_def split: option.splits node.splits)
  have nd1: "\<forall>f\<in>set (stored_files cfg uuidv4 (Suc k) ps). ?fs1 (path f) \<noteq> Some Directory"
    using Cons.prems(3) by auto
  have all: "\<forall>p\<in>set ps. accepted cfg p" using Cons.prems(1) by simp
  obtain fs' where ih:
    "multer_parts cfg uuidv4 (Suc k) (left - 1) ps (uploaded @ [?file]) ?fs1
       = (Inr ((uploaded @ [?file]) @ stored_files cfg uuidv4 (Suc k) ps), fs')"
    "\<forall>f\<in>set (stored_files cfg uuidv4 (Suc k) ps). \<exists>bytes. fs' (path f) = Some (File bytes)"
    "\<forall>q. q \<notin> path ` set (stored_files cfg uuidv4 (Suc k) ps) \<longrightarrow> fs' q = ?fs1 q"
    "\<forall>q bytes. ?fs1 q = Some (File bytes) \<longrightarrow> (\<exists>bytes'. fs' q = Some (File bytes'))"
    using Cons.IH[OF all left(2) nd1, of "uploaded @ [?file]"] by blast
  have step: "multer_parts cfg uuidv4 k left (p # ps) uploaded fs
                = multer_parts cfg uuidv4 (Suc k) (left - 1) ps (uploaded @ [?file]) ?fs1"
    using acc left(1) w by (simp add: Let_def stored_file_def min_def)
  have f1: "\<exists>bytes. fs' (path ?file) = Some (File bytes)" using ih(4) by simp
  have frame: "\<forall>q. q \<notin> path ` set (stored_files cfg uuidv4 k (p # ps)) \<longrightarrow> fs' q = fs q"
    using ih(3) by auto
  have keep: "\<forall>q bytes. fs q = Some (File bytes) \<longrightarrow> (\<exists>bytes'. fs' q = Some (File bytes'))"
    using ih(4) by (metis fun_upd_apply)
  show ?case using step ih(1,2) f1 frame keep by (intro exI[of _ fs']) simp
qed

subsection \<open>Upload\<close>

lemma new_record_stored:
  assumes "uuid_shaped u"
  shows "new_record lookup now (stored_file cfg u p) =
           \<lparr>id' = u,
            originalName = part_filename p,
            storedName = u @ safe_ext (path_extname (part_filename p)),
            extension = safe_ext (path_extname (part_filename p)),
            size' = int (length (part_data p)),
            mime = (if part_type p \<noteq> [] then part_type p
                    else (case lookup (part_filename p) of
                            Some m \<Rightarrow> m
                          | None \<Rightarrow> ''application/octet-stream'')),
            uploadedAt = now\<rparr>"
  using stored_name_split[OF assms, of "part_filename p"]
  by (simp add: new_record_def stored_file_def Let_def) (simp add: storage_filename_def)

lemma stored_files_paths:
  "f \<in> set (stored_files cfg uuidv4 k ps) \<Longrightarrow>
     \<exists>i<length ps. f = stored_file cfg (uuidv4 (k + i)) (ps ! i)"
  by (metis in_set_conv_nth stored_files_length stored_files_nth)

lemma post_upload_accepted:
  assumes st: "store cfg fs = Some rs"
    and acc: "\<forall>p\<in>set parts. accepted cfg p" and len: "length parts \<le> 10"
    and us: "\<forall>k<length parts. uuid_shaped (uuidv4 k)"
    and nd: "\<forall>k<length parts. fs (path_join (UPLOAD_DIR cfg)
                (storage_filename (uuidv4 k) (part_filename (parts ! k)))) \<noteq> Some Directory"
  shows "\<exists>fs1. post_upload cfg lookup uuidv4 now (Some parts) fs =
           (json_response 201 (JsonFiles (map (new_record lookup now) (stored_files cfg uuidv4 0 parts))),
            fs1(META_PATH cfg \<mapsto> File (JSON_stringify ''  ''
                  (records_json (rs @ map (new_record lookup now) (stored_files cfg uuidv4 0 parts))))))
         \<and> (\<forall>f\<in>set (stored_files cfg uuidv4 0 parts). \<exists>bytes. fs1 (path f) = Some (File bytes))"
proof -
  let ?files = "stored_files cfg uuidv4 0 parts"
  have nd': "\<forall>f\<in>set ?files. fs (path f) \<noteq> Some Directory"
  proof
    fix f assume "f \<in> set ?files"
    then obtain i where i: "i < length parts" "f = stored_file cfg (uuidv4 i) (parts ! i)"
      using stored_files_paths[of f cfg uuidv4 0 parts] by auto
    then show "fs (path f) \<noteq> Some Directory" using nd by (simp add: stored_file_def)
  qed
  obtain fs1 where m: "multer_parts cfg uuidv4 0 10 parts [] fs = (Inr ([] @ ?files), fs1)"
    and present: "\<forall>f\<in>set ?files. \<exists>bytes. fs1 (path f) = Some (File bytes)"
    and frame: "\<forall>q. q \<notin> path ` set ?files \<longrightarrow> fs1 q = fs q"
    using multer_parts_accepts[OF acc len nd', of "[]"] by blast
  have "META_PATH cfg \<notin> path ` set ?files"
  proof
    assume "META_PATH cfg \<in> path ` set ?files"
    then obtain i where i: "i < length parts" "META_PATH cfg = path (stored_file cfg (uuidv4 i) (parts ! i))"
      using stored_files_paths[of _ cfg uuidv4 0 parts] by auto
    have "uuid_shaped (uuidv4 i)" using us i(1) by simp
    from stored_name_not_meta[OF this, of "UPLOAD_DIR cfg" "part_filename (parts ! i)"] i(2)
    show False by (simp add: META_PATH_def stored_file_def)
  qed
  then have "fs1 (META_PATH cfg) = fs (META_PATH cfg)" using frame by simp
  then have st1: "store cfg fs1 = Some rs" using st by (simp add: store_def readFileSync_def)
  have "post_upload cfg lookup uuidv4 now (Some parts) fs = upload_handler cfg lookup now (Some ?files) fs1"
    using m by (simp add: post_upload_def multer_array_def)
  then show ?thesis using upload_handler_ok[OF st1, of lookup now ?files] present
    by (intro exI[of _ fs1]) simp
qed

lemma saved_nth:
  assumes "i < length parts" "uuid_shaped (gen i)"
  shows "map (new_record lookup now) (stored_files cfg gen 0 parts) ! i =
           \<lparr>id' = gen i,
            originalName = part_filename (parts ! i),
            storedName = gen i @ safe_ext (path_extname (part_filename (parts ! i))),
            extension = safe_ext (path_extname (part_filename (parts ! i))),
            size' = int (length (part_data (parts ! i))),
            mime = (if part_type (parts ! i) \<noteq> [] then part_type (parts ! i)
                    else (case lookup (part_filename (parts ! i)) of
                            Some m \<Rightarrow> m
                          | None \<Rightarrow> ''application/octet-stream'')),
            uploadedAt = now\<rparr>"
  using assms by (simp add: stored_files_nth new_record_stored)



text \<open>
  Claim C8. For every file part of an accepted upload, the extension of the stored name
  is the extension of the original file name with every character other than letters,
  digits and the dot removed, the stored name is the generated identifier followed by
  that extension, and a file of that name is in the upload directory afterwards.
\<close>

theorem stored_name_sanitized:
  assumes st: "store cfg fs = Some rs"
    and acc: "\<forall>p\<in>set parts. part_field p = ''files'' \<and> part_filename p \<noteq> []
                \<and> length (part_data p) \<le> MAX_FILE_SIZE cfg"
    and len: "length parts \<le> 10"
    and us: "\<forall>k<length parts. uuid_shaped (uuidv4 k)"
    and nd: "\<forall>k<length parts. fs (path_join (UPLOAD_DIR cfg)
                (storage_filename (uuidv4 k) (part_filename (parts ! k)))) \<noteq> Some Directory"
  shows "\<exists>saved fs'.
           post_upload cfg lookup uuidv4 now (Some parts) fs = (json_response 201 (JsonFiles saved), fs')
         \<and> length saved = length parts
         \<and> (\<forall>i<length parts.
                originalName (saved ! i) = part_filename (parts ! i)
              \<and> id' (saved ! i) = uuidv4 i
              \<and> extension (saved ! i)
                  = filter (\<lambda>c. c = CHR ''.'' \<or> is_letter c \<or> is_digit c)
                      (path_extname (part_filename (parts ! i)))
              \<and> storedName (saved ! i) = uuidv4 i @ extension (saved ! i)
              \<and> storedName (saved ! i) = storage_filename (uuidv4 i) (part_filename (parts ! i))
              \<and> (\<exists>bytes. fs' (path_join (UPLOAD_DIR cfg) (storedName (saved ! i))) = Some (File bytes)))"
proof -
  let ?files = "stored_files cfg uuidv4 0 parts"
  let ?saved = "map (new_record lookup now) ?files"
  have acc': "\<forall>p\<in>set parts. accepted cfg p" using acc by (simp add: accepted_def)
  obtain fs1 where p: "post_upload cfg lookup uuidv4 now (Some parts) fs =
      (json_response 201 (JsonFiles ?saved),
       fs1(META_PATH cfg \<mapsto> File (JSON_stringify ''  '' (records_json (rs @ ?saved)))))"
    and present: "\<forall>f\<in>set ?files. \<exists>bytes. fs1 (path f) = Some (File bytes)"
    using post_upload_accepted[OF st acc' len us nd] by blast
  let ?fs' = "fs1(META_PATH cfg \<mapsto> File (JSON_stringify ''  '' (records_json (rs @ ?saved))))"
  have each: "originalName (?saved ! i) = part_filename (parts ! i)
              \<and> id' (?saved ! i) = uuidv4 i
              \<and> extension (?saved ! i)
                  = filter (\<lambda>c. c = CHR ''.'' \<or> is_letter c \<or> is_digit c)
                      (path_extname (part_filename (parts ! i)))
              \<and> storedName (?saved ! i) = uuidv4 i @ extension (?saved ! i)
              \<and> storedName (?saved ! i) = storage_filename (uuidv4 i) (part_filename (parts ! i))
              \<and> (\<exists>bytes. ?fs' (path_join (UPLOAD_DIR cfg) (storedName (?saved ! i))) = Some (File bytes))"
    if i: "i < length parts" for i
  proof -
    have u: "uuid_shaped (uuidv4 i)" using us i by simp
    have f: "?files ! i \<in> set ?files" using i by simp
    have pth: "path (?files ! i) = path_join (UPLOAD_DIR cfg) (storedName (?saved ! i))"
      using i u by (simp add: saved_nth[where parts=parts and gen=uuidv4, OF i u] stored_files_nth stored_file_def storage_filename_def del: nth_map)
    obtain bytes where b: "fs1 (path (?files ! i)) = Some (File bytes)" using present f by blast
    have "\<exists>bytes. ?fs' (path_join (UPLOAD_DIR cfg) (storedName (?saved ! i))) = Some (File bytes)"
      using b pth by (cases "path (?files ! i) = META_PATH cfg") auto
    then show ?thesis
      unfolding saved_nth[where parts=parts and gen=uuidv4, OF i u]
      by (simp add: safe_ext_def safe_ext_char_def[abs_def] storage_filename_def)
  qed
  have l: "length ?saved = length parts" by simp
  from p l each show ?thesis by blast
qed

text \<open>
  Claim C10. All records that one upload request creates carry the same
  \<^verbatim>\<open>uploadedAt\<close>: the value \<open>now\<close> computed once for the request.
\<close>

theorem upload_same_timestamp:
  assumes "post_upload cfg lookup uuidv4 now multipart fs = (json_response 201 (JsonFiles saved), fs')"
  shows "\<forall>r\<in>set saved. uploadedAt r = now"
proof -
  obtain req_files fs1 where h: "upload_handler cfg lookup now req_files fs1 = (json_response 201 (JsonFiles saved), fs')"
    using assms
    by (auto simp: post_upload_def finalhandler_def json_response_def split: prod.splits sum.splits)
  then obtain fs2 where t: "upload_try cfg lookup now req_files fs1 = (Inr saved, fs2)"
    by (auto simp: upload_handler_def json_response_def split: prod.splits sum.splits if_splits)
  then obtain files meta meta' where "upload_loop lookup now files meta [] = Inr (meta', saved)"
    by (auto simp: upload_try_def Let_def split: sum.splits prod.splits)
  then have "saved = map (new_record lookup now) files" using upload_loop_saved by fastforce
  then show ?thesis by (simp add: new_record_def Let_def)
qed

text \<open>
  Claim C1, as the code behaves. multer refuses a request with a part larger than
  \<^verbatim>\<open>MAX_FILE_SIZE\<close> by passing its error to \<^verbatim>\<open>next\<close>, so the route function and its
  \<^verbatim>\<open>catch\<close> block (which would answer 400) never run: Express' final handler answers
  500. No record is committed: the store is the one before the request.
\<close>

theorem upload_oversize_part:
  assumes p: "p \<in> set parts" "part_filename p \<noteq> []" "MAX_FILE_SIZE cfg < length (part_data p)"
    and us: "\<forall>k. uuid_shaped (uuidv4 k)"
  shows "\<exists>fs'. post_upload cfg lookup uuidv4 now (Some parts) fs = (json_response 500 ErrorPage, fs')
              \<and> store cfg fs' = store cfg fs"
proof -
  obtain e fs' where m: "multer_parts cfg uuidv4 0 10 parts [] fs = (Inl e, fs')"
    using multer_parts_oversize[OF p] by blast
  have "fs' (META_PATH cfg) = fs (META_PATH cfg)"
  proof (rule multer_parts_other[OF _ _ m])
    show "path_join (UPLOAD_DIR cfg) (storage_filename (uuidv4 k) n) \<noteq> META_PATH cfg" for k n
      using stored_name_not_meta[of "uuidv4 k" "UPLOAD_DIR cfg" n] us by (simp add: META_PATH_def)
  qed simp
  then have "store cfg fs' = store cfg fs" by (simp add: store_def readFileSync_def)
  then show ?thesis using m
    by (intro exI[of _ fs']) (simp add: post_upload_def multer_array_def finalhandler_def)
qed

lemma example_uuid_shaped: "uuid_shaped (example_uuidv4 k)"
proof -
  have "hex_chars ! (k mod 16) \<in> set hex_chars" by (rule nth_mem) (simp add: hex_chars_def)
  then show ?thesis by (auto simp: uuid_shaped_def example_uuidv4_def hex_chars_def)
qed

lemma example_uuid_values:
  "example_uuidv4 0 = ''00000000-0000-4000-8000-000000000000''"
  "example_uuidv4 1 = ''00000000-0000-4000-8000-000000000001''"
  "example_uuidv4 (Suc 0) = ''00000000-0000-4000-8000-000000000001''"
  by (simp_all add: example_uuidv4_def hex_chars_def)



lemma example_disk_no_dir: "example_disk q \<noteq> Some Directory"
  by (simp add: example_disk_def)

lemma example_parts_ok:
  "\<forall>p\<in>set example_parts. part_field p = ''files'' \<and> part_filename p \<noteq> []
      \<and> length (part_data p) \<le> MAX_FILE_SIZE example_cfg"
  by (simp add: example_parts_def example_cfg_def)

lemma example_exts:
  "filter (\<lambda>c. c = CHR ''.'' \<or> is_letter c \<or> is_digit c) (path_extname ''my notes.t x$t'') = ''.txt''"
  "filter (\<lambda>c. c = CHR ''.'' \<or> is_letter c \<or> is_digit c) (path_extname ''archive.tar.gz'') = ''.gz''"
  by code_simp+





theorem stored_name_sanitized_witness:
  "\<exists>saved fs'.
     post_upload example_cfg (\<lambda>n. None) example_uuidv4 ''t2'' (Some example_parts) example_disk
       = (json_response 201 (JsonFiles saved), fs')
   \<and> length saved = 2
   \<and> originalName (saved ! 0) = ''my notes.t x$t''
   \<and> storedName (saved ! 0) = ''00000000-0000-4000-8000-000000000000.txt''
   \<and> originalName (saved ! 1) = ''archive.tar.gz''
   \<and> storedName (saved ! 1) = ''00000000-0000-4000-8000-000000000001.gz''"
proof -
  have l: "length example_parts = 2" by (simp add: example_parts_def)
  have n: "part_filename (example_parts ! 0) = ''my notes.t x$t''"
          "part_filename (example_parts ! Suc 0) = ''archive.tar.gz''"
    by (simp_all add: example_parts_def)
  obtain saved fs' where s:
    "post_upload example_cfg (\<lambda>n. None) example_uuidv4 ''t2'' (Some example_parts) example_disk
       = (json_response 201 (JsonFiles saved), fs')"
    "length saved = length example_parts"
    "\<forall>i<length example_parts.
        originalName (saved ! i) = part_filename (example_parts ! i)
      \<and> id' (saved ! i) = example_uuidv4 i
      \<and> extension (saved ! i)
          = filter (\<lambda>c. c = CHR ''.'' \<or> is_letter c \<or> is_digit c)
              (path_extname (part_filename (example_parts ! i)))
      \<and> storedName (saved ! i) = example_uuidv4 i @ extension (saved ! i)
      \<and> storedName (saved ! i) = storage_filename (example_uuidv4 i) (part_filename (example_parts ! i))
      \<and> (\<exists>bytes. fs' (path_join (UPLOAD_DIR example_cfg) (storedName (saved ! i))) = Some (File bytes))"
    using stored_name_sanitized[OF example_store example_parts_ok, of example_uuidv4 "\<lambda>n. None" "''t2''"]
          example_uuid_shaped example_disk_no_dir
    by (auto simp: l)
  have "0 < length example_parts" "1 < length example_parts" by (simp_all add: l)
  with s(3) have
    "originalName (saved ! 0) = ''my notes.t x$t''"
    "storedName (saved ! 0) = example_uuidv4 0 @ ''.txt''"
    "originalName (saved ! 1) = ''archive.tar.gz''"
    "storedName (saved ! 1) = example_uuidv4 1 @ ''.gz''"
    by (simp_all add: n example_exts)
  then show ?thesis using s(1,2)
    by (intro exI[of _ saved] exI[of _ fs']) (simp add: l example_uuid_values)
qed

theorem upload_same_timestamp_witness:
  "\<exists>saved fs'.
     post_upload example_cfg (\<lambda>n. None) example_uuidv4 ''t2'' (Some example_parts) example_disk
       = (json_response 201 (JsonFiles saved), fs')
   \<and> length saved = 2 \<and> uploadedAt (saved ! 0) = ''t2'' \<and> uploadedAt (saved ! 1) = ''t2''"
proof -
  have l: "length example_parts = 2" by (simp add: example_parts_def)
  have acc: "\<forall>p\<in>set example_parts. accepted example_cfg p"
    using example_parts_ok by (simp add: accepted_def)
  obtain saved fs' where s:
    "post_upload example_cfg (\<lambda>n. None) example_uuidv4 ''t2'' (Some example_parts) example_disk
       = (json_response 201 (JsonFiles saved), fs')" "length saved = 2"
    using post_upload_accepted[OF example_store acc, of example_uuidv4 "\<lambda>n. None" "''t2''"]
          example_uuid_shaped example_disk_no_dir
    by (auto simp: l)
  have "saved ! 0 \<in> set saved" "saved ! 1 \<in> set saved" using s(2) by simp_all
  then have "uploadedAt (saved ! 0) = ''t2''" "uploadedAt (saved ! 1) = ''t2''"
    using upload_same_timestamp[OF s(1)] by blast+
  then show ?thesis using s by (intro exI[of _ saved] exI[of _ fs']) simp
qed

theorem upload_oversize_part_witness:
  "\<exists>fs'. post_upload example_cfg (\<lambda>n. None) example_uuidv4 ''t2'' (Some [example_big_part]) example_disk
            = (Responds \<lparr>status = 500, headers = [], body = ErrorPage\<rparr>, fs')
        \<and> store example_cfg fs' = Some [example_record ''a'' ''t1'']"
  using upload_oversize_part[of example_big_part "[example_big_part]" example_cfg example_uuidv4
          "\<lambda>n. None" "''t2''" example_disk] example_uuid_shaped
  by (simp add: example_big_part_def example_cfg_def example_store[unfolded example_cfg_def] json_response_def)

theorem listing_newest_first_witness:
  "get_files example_Date example_cfg example_disk3 =
     (json_response 200
        (JsonFiles [example_record ''c'' ''t3'', example_record ''b'' ''t2'', example_record ''a'' ''t1'']),
      example_disk3)"
proof -
  have st: "store example_cfg example_disk3
              = Some [example_record ''b'' ''t2'', example_record ''c'' ''t3'', example_record ''a'' ''t1'']"
    using store_saved[of example_cfg Map.empty]
    by (simp add: example_meta_path example_disk3_def)
  have m: "mset [example_record ''b'' ''t2'', example_record ''c'' ''t3'', example_record ''a'' ''t1'']
            = {#example_record ''a'' ''t1'', example_record ''b'' ''t2'', example_record ''c'' ''t3''#}"
    by (simp add: add_mset_commute)
  have d: "example_Date (uploadedAt (example_record ''a'' ''t1'')) < example_Date (uploadedAt (example_record ''b'' ''t2''))"
          "example_Date (uploadedAt (example_record ''b'' ''t2'')) < example_Date (uploadedAt (example_record ''c'' ''t3''))"
    by (simp_all add: example_Date_def example_record_def)
  from listing_newest_first[OF st, of example_Date] m d show ?thesis by blast
qed

end
